theory Spec2Isabelle
  imports Main "HOL-Library.Sublist" "HOL-Library.AList" "HOL-Library.List_Lexorder"
    "HOL-Library.Char_ord" "HOL-Library.Multiset"
begin

section \<open>JavaScript values\<close>

text \<open>
  The query engine of \<^verbatim>\<open>src/clients/prisma.service.ts\<close> works on untyped values
  (\<^verbatim>\<open>unknown\<close>, \<^verbatim>\<open>Record<string, unknown>\<close>).  They are modelled by one datatype.
  Dates, arrays and objects carry a reference: \<^verbatim>\<open>===\<close> compares those by identity, not by
  content.  Numbers are modelled by integers (no NaN, no fractions), strings by lists of
  8-bit characters.  An object is the list of its own enumerable properties in the order
  \<^verbatim>\<open>Object.keys\<close> enumerates them; inherited members are outside the model.
\<close>

type_synonym ref = nat

datatype jsval =
    JUndefined
  | JNull
  | JBool bool
  | JNum int
  | JStr string
  | JDate ref int
  | JArr ref "jsval list"
  | JObj ref "(string \<times> jsval) list"

text \<open>\<^verbatim>\<open>value !== null && typeof value === 'object' && !Array.isArray(value)\<close>\<close>

fun isObject :: "jsval \<Rightarrow> bool" where
  "isObject (JObj r kvs) = True"
| "isObject (JDate r t) = True"
| "isObject v = False"

fun isArray :: "jsval \<Rightarrow> bool" where
  "isArray (JArr r xs) = True"
| "isArray v = False"

fun isString :: "jsval \<Rightarrow> bool" where
  "isString (JStr s) = True"
| "isString v = False"

text \<open>Truthiness, as \<^verbatim>\<open>if (v)\<close>, \<^verbatim>\<open>!v\<close> and \<^verbatim>\<open>a && b\<close> test it.\<close>

fun truthy :: "jsval \<Rightarrow> bool" where
  "truthy JUndefined = False"
| "truthy JNull = False"
| "truthy (JBool b) = b"
| "truthy (JNum n) = (n \<noteq> 0)"
| "truthy (JStr s) = (s \<noteq> [])"
| "truthy v = True"

text \<open>Strict equality \<^verbatim>\<open>a === b\<close>: by value on primitives, by reference otherwise.\<close>

fun strict_eq :: "jsval \<Rightarrow> jsval \<Rightarrow> bool" where
  "strict_eq JUndefined JUndefined = True"
| "strict_eq JNull JNull = True"
| "strict_eq (JBool a) (JBool b) = (a = b)"
| "strict_eq (JNum a) (JNum b) = (a = b)"
| "strict_eq (JStr a) (JStr b) = (a = b)"
| "strict_eq (JDate r s) (JDate r' t) = (r = r')"
| "strict_eq (JArr r xs) (JArr r' ys) = (r = r')"
| "strict_eq (JObj r xs) (JObj r' ys) = (r = r')"
| "strict_eq a b = False"

text \<open>\<^verbatim>\<open>arr.includes(v)\<close> on an array value (false when \<open>arr\<close> is no array).\<close>

fun arrayIncludes :: "jsval \<Rightarrow> jsval \<Rightarrow> bool" where
  "arrayIncludes (JArr r xs) v = list_ex (\<lambda>x. strict_eq x v) xs"
| "arrayIncludes a v = False"

text \<open>\<^verbatim>\<open>s.includes(t)\<close>, \<^verbatim>\<open>s.startsWith(t)\<close>, \<^verbatim>\<open>s.endsWith(t)\<close> on two string values.\<close>

fun stringIncludes :: "jsval \<Rightarrow> jsval \<Rightarrow> bool" where
  "stringIncludes (JStr s) (JStr t) = sublist t s"
| "stringIncludes a b = False"

fun stringStartsWith :: "jsval \<Rightarrow> jsval \<Rightarrow> bool" where
  "stringStartsWith (JStr s) (JStr t) = prefix t s"
| "stringStartsWith a b = False"

fun stringEndsWith :: "jsval \<Rightarrow> jsval \<Rightarrow> bool" where
  "stringEndsWith (JStr s) (JStr t) = suffix t s"
| "stringEndsWith a b = False"

text \<open>
  The relational operators \<^verbatim>\<open>< > <= >=\<close> of the language coerce their operands; the
  engine relies on them without restricting the operand types.  The abstract comparison
  behind them (the result of \<open>a < b\<close>, \<open>None\<close> when it is undefined) is a parameter of the
  model; the four operators are derived from it as the language defines them.
\<close>

type_synonym isLessThan = "jsval \<Rightarrow> jsval \<Rightarrow> bool option"

definition js_lt :: "isLessThan \<Rightarrow> jsval \<Rightarrow> jsval \<Rightarrow> bool" where
  "js_lt lt a b = (lt a b = Some True)"

definition js_gt :: "isLessThan \<Rightarrow> jsval \<Rightarrow> jsval \<Rightarrow> bool" where
  "js_gt lt a b = (lt b a = Some True)"

definition js_lte :: "isLessThan \<Rightarrow> jsval \<Rightarrow> jsval \<Rightarrow> bool" where
  "js_lte lt a b = (lt b a = Some False)"

definition js_gte :: "isLessThan \<Rightarrow> jsval \<Rightarrow> jsval \<Rightarrow> bool" where
  "js_gte lt a b = (lt a b = Some False)"

section \<open>Field filters\<close>

text \<open>\<^verbatim>\<open>valueForComparison\<close>: a date is compared by its epoch time.\<close>

fun valueForComparison :: "jsval \<Rightarrow> jsval" where
  "valueForComparison (JDate r t) = JNum t"
| "valueForComparison v = v"

text \<open>
  \<^verbatim>\<open>evalFieldFilter(value, condition)\<close>.  A condition that is no object is a literal and
  is tested with \<^verbatim>\<open>===\<close>.  Otherwise the loop over \<^verbatim>\<open>Object.entries(condition)\<close> is
  \<open>evalEntries\<close>: each \<^verbatim>\<open>case\<close> of the \<^verbatim>\<open>switch\<close> returns false when its test fails and goes
  on to the next entry otherwise.  A date has no own properties, so its loop is empty.
\<close>

fun evalFieldFilter :: "isLessThan \<Rightarrow> jsval \<Rightarrow> jsval \<Rightarrow> bool"
  and evalEntries :: "isLessThan \<Rightarrow> jsval \<Rightarrow> (string \<times> jsval) list \<Rightarrow> bool" where
  "evalFieldFilter lt v (JObj r kvs) = evalEntries lt v kvs"
| "evalFieldFilter lt v (JDate r t) = True"
| "evalFieldFilter lt v JUndefined = strict_eq v JUndefined"
| "evalFieldFilter lt v JNull = strict_eq v JNull"
| "evalFieldFilter lt v (JBool b) = strict_eq v (JBool b)"
| "evalFieldFilter lt v (JNum n) = strict_eq v (JNum n)"
| "evalFieldFilter lt v (JStr s) = strict_eq v (JStr s)"
| "evalFieldFilter lt v (JArr r xs) = strict_eq v (JArr r xs)"
| "evalEntries lt v [] = True"
| "evalEntries lt v ((opKey, opVal) # rest) =
     (if opKey = ''equals'' then
        (if \<not> strict_eq v opVal then False else evalEntries lt v rest)
      else if opKey = ''in'' then
        (if \<not> isArray opVal \<or> \<not> arrayIncludes opVal v then False else evalEntries lt v rest)
      else if opKey = ''notIn'' then
        (if isArray opVal \<and> arrayIncludes opVal v then False else evalEntries lt v rest)
      else if opKey = ''gt'' then
        (if \<not> js_gt lt (valueForComparison v) (valueForComparison opVal) then False
         else evalEntries lt v rest)
      else if opKey = ''gte'' then
        (if \<not> js_gte lt (valueForComparison v) (valueForComparison opVal) then False
         else evalEntries lt v rest)
      else if opKey = ''lt'' then
        (if \<not> js_lt lt (valueForComparison v) (valueForComparison opVal) then False
         else evalEntries lt v rest)
      else if opKey = ''lte'' then
        (if \<not> js_lte lt (valueForComparison v) (valueForComparison opVal) then False
         else evalEntries lt v rest)
      else if opKey = ''contains'' then
        (if isString v \<and> isString opVal then
           (if \<not> stringIncludes v opVal then False else evalEntries lt v rest)
         else if isArray v then
           (if \<not> arrayIncludes v opVal then False else evalEntries lt v rest)
         else False)
      else if opKey = ''startsWith'' then
        (if \<not> isString v \<or> \<not> isString opVal \<or> \<not> stringStartsWith v opVal then False
         else evalEntries lt v rest)
      else if opKey = ''endsWith'' then
        (if \<not> isString v \<or> \<not> isString opVal \<or> \<not> stringEndsWith v opVal then False
         else evalEntries lt v rest)
      else if opKey = ''not'' then
        (if isObject opVal then
           (if evalFieldFilter lt v opVal then False else evalEntries lt v rest)
         else
           (if strict_eq v opVal then False else evalEntries lt v rest))
      else
        (if \<not> strict_eq v opVal then False else evalEntries lt v rest))"


section \<open>Own properties\<close>

text \<open>Decimal numerals: the property names of array elements and string characters.\<close>

definition digitChar :: "nat \<Rightarrow> char" where
  "digitChar d = char_of (48 + d)"

function showNat :: "nat \<Rightarrow> string" where
  "showNat n = (if n < 10 then [digitChar n] else showNat (n div 10) @ [digitChar (n mod 10)])"
  by pat_completeness auto
termination
  by (relation "measure id") auto

declare showNat.simps [simp del]

text \<open>
  \<^verbatim>\<open>Object.entries(v)\<close> and \<^verbatim>\<open>Object.keys(v)\<close>: the properties of an object, the
  indexed elements of an array, the indexed characters of a string, nothing for the
  other values.
\<close>

fun ownEntries :: "jsval \<Rightarrow> (string \<times> jsval) list" where
  "ownEntries (JObj r kvs) = kvs"
| "ownEntries (JArr r xs) = zip (map showNat [0 ..< length xs]) xs"
| "ownEntries (JStr s) = zip (map showNat [0 ..< length s]) (map (\<lambda>c. JStr [c]) s)"
| "ownEntries v = []"

definition objectKeys :: "jsval \<Rightarrow> string list" where
  "objectKeys v = map fst (ownEntries v)"

text \<open>\<^verbatim>\<open>obj[k]\<close>: the own property, \<^verbatim>\<open>undefined\<close> when there is none.\<close>

definition getProp :: "jsval \<Rightarrow> string \<Rightarrow> jsval" where
  "getProp v k = (case map_of (ownEntries v) k of None \<Rightarrow> JUndefined | Some x \<Rightarrow> x)"

text \<open>The elements of an array value.\<close>

fun elements :: "jsval \<Rightarrow> jsval list" where
  "elements (JArr r xs) = xs"
| "elements v = []"

section \<open>Where conditions\<close>

definition logical :: "string list" where
  "logical = [''AND'', ''OR'', ''NOT'']"

text \<open>
  The field-level keys of a condition:
  \<^verbatim>\<open>Object.keys(whereObj).filter((k) => !logical.includes(k))\<close>.
\<close>

definition fieldKeys :: "jsval \<Rightarrow> string list" where
  "fieldKeys wh = filter (\<lambda>k. k \<notin> set logical) (objectKeys wh)"

lemma size_map_of:
  "map_of kvs k = Some v \<Longrightarrow> size (v::jsval) < Suc (size_list (\<lambda>p. Suc (size (snd p))) kvs)"
  by (induction kvs) (auto split: if_splits)

lemma size_getProp_obj:
  "getProp w k = v \<Longrightarrow> v \<noteq> JUndefined \<Longrightarrow> isObject v \<or> isArray v \<Longrightarrow> size v < size w"
proof (cases w)
  case (JObj r kvs)
  assume "getProp w k = v" "v \<noteq> JUndefined"
  with JObj have "map_of kvs k = Some v"
    by (auto simp: getProp_def split: option.splits)
  from size_map_of [OF this] JObj show ?thesis
    by (simp add: size_prod_simp)
next
  case (JArr r xs)
  assume g: "getProp w k = v" and nu: "v \<noteq> JUndefined"
  with JArr have "map_of (zip (map showNat [0 ..< length xs]) xs) k = Some v"
    by (auto simp: getProp_def split: option.splits)
  then have "v \<in> set xs"
    by (auto dest!: map_of_SomeD set_zip_rightD)
  then have "size v < Suc (size_list size xs)"
    by (induction xs) auto
  with JArr show ?thesis by simp
next
  case (JStr s)
  assume "getProp w k = v" "v \<noteq> JUndefined" "isObject v \<or> isArray v"
  with JStr show ?thesis
    by (auto simp: getProp_def split: option.splits dest!: map_of_SomeD set_zip_rightD)
qed (auto simp: getProp_def)

lemma size_elements: "x \<in> set (elements v) \<Longrightarrow> size x < size v"
proof (cases v)
  case (JArr r xs)
  assume "x \<in> set (elements v)"
  with JArr have "x \<in> set xs" by simp
  then have "size x < Suc (size_list size xs)"
    by (induction xs) auto
  with JArr show ?thesis by simp
qed auto

text \<open>
  \<^verbatim>\<open>buildPredicate(where)(item)\<close>.  The compiled closure is applied at once: the third
  argument is the record.  Each \<^verbatim>\<open>for\<close> loop that returns false at the first failing
  element is \<open>list_all\<close>; the \<^verbatim>\<open>OR\<close> loop, which stops at the first success, is \<open>list_ex\<close>.
\<close>

function buildPredicate :: "isLessThan \<Rightarrow> jsval \<Rightarrow> jsval \<Rightarrow> bool" where
  "buildPredicate lt wh item =
     (if \<not> truthy wh then True
      else if \<not> list_all (\<lambda>k. evalFieldFilter lt (getProp item k) (getProp wh k))
                 (fieldKeys wh) then False
      else if \<not> (if isArray (getProp wh ''AND'') then
                   list_all (\<lambda>sub. buildPredicate lt sub item) (elements (getProp wh ''AND''))
                 else if truthy (getProp wh ''AND'') \<and> isObject (getProp wh ''AND'') then
                   buildPredicate lt (getProp wh ''AND'') item
                 else True) then False
      else if \<not> (if isArray (getProp wh ''OR'') \<and> elements (getProp wh ''OR'') \<noteq> [] then
                   list_ex (\<lambda>sub. buildPredicate lt sub item) (elements (getProp wh ''OR''))
                 else True) then False
      else if \<not> (if isArray (getProp wh ''NOT'') then
                   list_all (\<lambda>sub. \<not> buildPredicate lt sub item) (elements (getProp wh ''NOT''))
                 else if truthy (getProp wh ''NOT'') \<and> isObject (getProp wh ''NOT'') then
                   \<not> buildPredicate lt (getProp wh ''NOT'') item
                 else True) then False
      else True)"
  by pat_completeness auto
termination
proof (relation "measure (\<lambda>(lt, wh, item). size wh)", goal_cases)
  case 1
  show ?case by simp
next
  case (2 lt wh item sub)
  then have "isArray (getProp wh ''AND'')" by simp
  then have "getProp wh ''AND'' \<noteq> JUndefined" by auto
  from size_getProp_obj [OF refl this] \<open>isArray (getProp wh ''AND'')\<close> size_elements 2
  show ?case by fastforce
next
  case (3 lt wh item)
  then have "isObject (getProp wh ''AND'')" by simp
  then have "getProp wh ''AND'' \<noteq> JUndefined" by auto
  from size_getProp_obj [OF refl this] \<open>isObject (getProp wh ''AND'')\<close>
  show ?case by simp
next
  case (4 lt wh item sub)
  then have "isArray (getProp wh ''OR'')" by simp
  then have "getProp wh ''OR'' \<noteq> JUndefined" by auto
  from size_getProp_obj [OF refl this] \<open>isArray (getProp wh ''OR'')\<close> size_elements 4
  show ?case by fastforce
next
  case (5 lt wh item sub)
  then have "isArray (getProp wh ''NOT'')" by simp
  then have "getProp wh ''NOT'' \<noteq> JUndefined" by auto
  from size_getProp_obj [OF refl this] \<open>isArray (getProp wh ''NOT'')\<close> size_elements 5
  show ?case by fastforce
next
  case (6 lt wh item)
  then have "isObject (getProp wh ''NOT'')" by simp
  then have "getProp wh ''NOT'' \<noteq> JUndefined" by auto
  from size_getProp_obj [OF refl this] \<open>isObject (getProp wh ''NOT'')\<close>
  show ?case by simp
qed

declare buildPredicate.simps [simp del]



section \<open>Primary-key probes\<close>

text \<open>
  \<^verbatim>\<open>getPrimaryKeyPath(table)\<close> yields \<^verbatim>\<open>string | string[] | null\<close>: the key path of the
  table handle, a parameter of the functions below.
\<close>

datatype keyPath = KNull | KString string | KArray "string list"

text \<open>\<^verbatim>\<open>!keyPath\<close>: null and the empty string are falsy, every array is truthy.\<close>

fun noKeyPath :: "keyPath \<Rightarrow> bool" where
  "noKeyPath KNull = True"
| "noKeyPath (KString p) = (p = [])"
| "noKeyPath (KArray ps) = False"

text \<open>\<^verbatim>\<open>hasOnlyKeys(obj, keys)\<close>, on the list \<^verbatim>\<open>Object.keys(obj)\<close>.\<close>

definition hasOnlyKeys :: "string list \<Rightarrow> string list \<Rightarrow> bool" where
  "hasOnlyKeys objKeys keys =
     (if length objKeys \<noteq> length keys then False
      else list_all (\<lambda>k. k \<in> set objKeys) keys)"

text \<open>
  The keys of \<^verbatim>\<open>Object.fromEntries(keys.map((k) => [k, true]))\<close>: each key once.
\<close>

definition fromEntriesKeys :: "string list \<Rightarrow> string list" where
  "fromEntriesKeys keys = remdups keys"

text \<open>
  The part of a key read from one field of the condition:
  \<^verbatim>\<open>isObject(raw) ? raw['equals'] : raw\<close>.
\<close>

definition keyPart :: "jsval \<Rightarrow> jsval" where
  "keyPart raw = (if isObject raw then getProp raw ''equals'' else raw)"

text \<open>
  \<^verbatim>\<open>tryBuildKeyFromWhere(table, where)\<close>; \<open>JUndefined\<close> is the result \<^verbatim>\<open>undefined\<close>.  The
  compound key is a fresh array; its reference plays no role (the store compares keys by
  content) and is fixed to 0.
\<close>

definition tryBuildKeyFromWhere :: "keyPath \<Rightarrow> jsval \<Rightarrow> jsval" where
  "tryBuildKeyFromWhere keyPath wh =
     (if \<not> truthy wh then JUndefined
      else if noKeyPath keyPath then JUndefined
      else
        let keys = fieldKeys wh in
        (case keyPath of
           KString p \<Rightarrow>
             if \<not> hasOnlyKeys (fromEntriesKeys keys) [p] then JUndefined
             else
               let raw = getProp wh p in
               if raw = JUndefined then JUndefined
               else if isObject raw then getProp raw ''equals''
               else raw
         | KArray ps \<Rightarrow>
             if \<not> hasOnlyKeys (fromEntriesKeys keys) ps then JUndefined
             else JArr 0 (map (\<lambda>k. keyPart (getProp wh k)) ps)
         | KNull \<Rightarrow> JUndefined))"

text \<open>\<^verbatim>\<open>getKeyFromEntity(table, entity)\<close>.\<close>

definition getKeyFromEntity :: "keyPath \<Rightarrow> jsval \<Rightarrow> jsval" where
  "getKeyFromEntity keyPath entity =
     (if noKeyPath keyPath then JUndefined
      else case keyPath of
           KString p \<Rightarrow> getProp entity p
         | KArray ps \<Rightarrow> JArr 0 (map (\<lambda>k. getProp entity k) ps)
         | KNull \<Rightarrow> JUndefined)"

section \<open>Ordering\<close>









section \<open>The table store\<close>

text \<open>
  Modelled from the spec: the underlying table store (the \<^verbatim>\<open>dexie.Table\<close> handle) is an
  external collaborator.  Of its contract the model keeps: rows are held under their
  primary keys, in key order; get-by-key and delete-by-key compare keys by content; a
  value that is no valid key makes the store reject the call; the cursor visits the
  records in row order.
\<close>

datatype idbKey = IKNum int | IKStr string | IKDate int | IKArr "idbKey list"

fun toKey :: "jsval \<Rightarrow> idbKey option" where
  "toKey (JNum n) = Some (IKNum n)"
| "toKey (JStr s) = Some (IKStr s)"
| "toKey (JDate r t) = Some (IKDate t)"
| "toKey (JArr r xs) = map_option IKArr (those (map toKey xs))"
| "toKey v = None"

record table =
  keyPathOf :: keyPath
  rows :: "(idbKey \<times> jsval) list"

datatype error = Error string | StoreError

text \<open>\<^verbatim>\<open>table.get(key)\<close>: the record, \<^verbatim>\<open>undefined\<close> when the key holds none.\<close>

definition table_get :: "table \<Rightarrow> jsval \<Rightarrow> error + jsval" where
  "table_get t key =
     (case toKey key of
        None \<Rightarrow> Inl StoreError
      | Some k \<Rightarrow> Inr (case map_of (rows t) k of None \<Rightarrow> JUndefined | Some r \<Rightarrow> r))"

text \<open>\<^verbatim>\<open>table.delete(key)\<close>.\<close>

definition table_delete :: "table \<Rightarrow> jsval \<Rightarrow> error + table" where
  "table_delete t key =
     (case toKey key of
        None \<Rightarrow> Inl StoreError
      | Some k \<Rightarrow> Inr (t\<lparr>rows := filter (\<lambda>row. fst row \<noteq> k) (rows t)\<rparr>))"

text \<open>\<^verbatim>\<open>table.toCollection()\<close>, materialised in cursor order.\<close>

definition toCollection :: "table \<Rightarrow> jsval list" where
  "toCollection t = map snd (rows t)"

text \<open>\<^verbatim>\<open>collection.first()\<close>.\<close>

fun first :: "jsval list \<Rightarrow> jsval" where
  "first [] = JUndefined"
| "first (x # xs) = x"


section \<open>The query service\<close>

text \<open>\<^verbatim>\<open>a ?? b\<close>\<close>

definition nullish :: "jsval \<Rightarrow> jsval \<Rightarrow> jsval" where
  "nullish a b = (if a = JUndefined \<or> a = JNull then b else a)"

text \<open>\<^verbatim>\<open>collectionForWhere(table, where)\<close>.\<close>

definition collectionForWhere :: "isLessThan \<Rightarrow> table \<Rightarrow> jsval \<Rightarrow> jsval list" where
  "collectionForWhere lt t wh =
     (if \<not> truthy wh then toCollection t
      else filter (\<lambda>item. buildPredicate lt wh item) (toCollection t))"

text \<open>\<^verbatim>\<open>findUnique({ where })\<close>; the result \<open>JNull\<close> is "no record".\<close>

definition findUnique :: "isLessThan \<Rightarrow> table \<Rightarrow> jsval \<Rightarrow> error + jsval" where
  "findUnique lt t wh =
     (let key = tryBuildKeyFromWhere (keyPathOf t) wh in
      if key \<noteq> JUndefined then
        (case table_get t key of
           Inl e \<Rightarrow> Inl e
         | Inr got \<Rightarrow> Inr (nullish got JNull))
      else Inr (nullish (first (collectionForWhere lt t wh)) JNull))"

text \<open>
  \<^verbatim>\<open>delete({ where })\<close>: the result and the table after the call.  A thrown error leaves
  the table as it was.
\<close>

definition delete :: "isLessThan \<Rightarrow> table \<Rightarrow> jsval \<Rightarrow> (error + jsval) \<times> table" where
  "delete lt t wh =
     (case findUnique lt t wh of
        Inl e \<Rightarrow> (Inl e, t)
      | Inr target \<Rightarrow>
          if \<not> truthy target then (Inl (Error ''Record to delete not found.''), t)
          else
            let key = nullish (tryBuildKeyFromWhere (keyPathOf t) wh)
                              (getKeyFromEntity (keyPathOf t) target) in
            if key = JUndefined then
              (Inl (Error ''Unable to resolve primary key for delete.''), t)
            else
              (case table_delete t key of
                 Inl e \<Rightarrow> (Inl e, t)
               | Inr t' \<Rightarrow> (Inr target, t')))"

section \<open>The entity registry\<close>

text \<open>
  \<^verbatim>\<open>src/core/registry.ts\<close>.  A constructor (\<^verbatim>\<open>Ctor\<close>) is a class: it has an identity, a
  \<^verbatim>\<open>name\<close>, and the class it extends, if any, which is what the walk along the prototype
  chain finds.
\<close>

datatype ctor = Ctor (ctorId: nat) (ctorName: string) (ctorParent: "ctor option")

text \<open>
  \<^verbatim>\<open>ColumnOptions\<close>: both members are optional.  A member is absent, present with the value
  \<^verbatim>\<open>undefined\<close>, or present with a boolean; only the last can be truthy, and an object
  spread copies every present member.
\<close>

datatype flag = Absent | Undef | Flag bool

record ColumnOptions =
  primary :: flag
  autoIncrement :: flag

definition flagSet :: "flag \<Rightarrow> bool" where
  "flagSet f = (f = Flag True)"

definition noOptions :: ColumnOptions where
  "noOptions = \<lparr>primary = Absent, autoIncrement = Absent\<rparr>"

text \<open>\<^verbatim>\<open>{ ...a, ...b }\<close>\<close>

definition spread :: "ColumnOptions \<Rightarrow> ColumnOptions \<Rightarrow> ColumnOptions" where
  "spread a b =
     \<lparr>primary = (if primary b = Absent then primary a else primary b),
      autoIncrement = (if autoIncrement b = Absent then autoIncrement a else autoIncrement b)\<rparr>"

record ColumnMeta =
  propertyKey :: string
  options :: ColumnOptions

record EntityMeta =
  target :: ctor
  tableName :: string
  columns :: "ColumnMeta list"

text \<open>
  The registry: \<^verbatim>\<open>byCtor\<close> (a WeakMap), \<^verbatim>\<open>byTable\<close> (a Map, which keeps insertion order)
  and \<^verbatim>\<open>sealed\<close>.  Both maps hold the same descriptor objects, which are updated in
  place; the model keeps each descriptor once, under its constructor, and \<open>byTable\<close>
  refers to it by that constructor (a descriptor's \<^verbatim>\<open>target\<close> never changes).
\<close>

record registry =
  byCtor :: "ctor \<Rightarrow> EntityMeta option"
  byTable :: "(string \<times> ctor) list"
  sealed :: bool

definition emptyRegistry :: registry where
  "emptyRegistry = \<lparr>byCtor = (\<lambda>c. None), byTable = [], sealed = False\<rparr>"

definition dq :: string where
  "dq = [CHR 0x22]"

definition sealedError :: "string \<Rightarrow> error" where
  "sealedError action =
     Error (''Registry is sealed; cannot '' @ action @ '' after database initialization.'')"

definition duplicateError :: "string \<Rightarrow> error" where
  "duplicateError name =
     Error (''Duplicate table name detected: '' @ dq @ name @ dq @
            '' is already registered for a different entity.'')"

text \<open>
  \<^verbatim>\<open>ensureEntityMeta(target, name)\<close>: the descriptor and the registry after the call.
  Every \<^verbatim>\<open>throw\<close> comes before the first update, so an error leaves the registry as it
  was.  \<^verbatim>\<open>Map.set\<close> is \<open>AList.update\<close> (a known key keeps its place, a new one goes
  last), \<^verbatim>\<open>Map.delete\<close> is \<open>AList.delete\<close>.
\<close>

definition ensureEntityMeta ::
    "ctor \<Rightarrow> string option \<Rightarrow> registry \<Rightarrow> error + (EntityMeta \<times> registry)" where
  "ensureEntityMeta tgt name r =
     (case byCtor r tgt of
        None \<Rightarrow>
          let tname = (case name of None \<Rightarrow> ctorName tgt | Some n \<Rightarrow> n) in
          if tname = [] then Inl (Error ''Table name cannot be empty'')
          else if (case map_of (byTable r) tname of None \<Rightarrow> False | Some existing \<Rightarrow> existing \<noteq> tgt)
          then Inl (duplicateError tname)
          else
            let meta = \<lparr>target = tgt, tableName = tname, columns = []\<rparr> in
            Inr (meta, r\<lparr>byCtor := (byCtor r)(tgt \<mapsto> meta),
                         byTable := AList.update tname tgt (byTable r)\<rparr>)
      | Some meta \<Rightarrow>
          (case name of
             None \<Rightarrow> Inr (meta, r)
           | Some n \<Rightarrow>
               if n \<noteq> [] \<and> tableName meta \<noteq> n then
                 let oldName = tableName meta;
                     isDefaultOld = (oldName = ctorName tgt) in
                 if (case map_of (byTable r) n of None \<Rightarrow> False | Some conflict \<Rightarrow> conflict \<noteq> tgt)
                 then Inl (duplicateError n)
                 else if isDefaultOld then
                   let table1 = (if map_of (byTable r) oldName = Some tgt
                                 then AList.delete oldName (byTable r) else byTable r);
                       meta' = meta\<lparr>tableName := n\<rparr> in
                   Inr (meta', r\<lparr>byCtor := (byCtor r)(tgt \<mapsto> meta'),
                                 byTable := AList.update n tgt table1\<rparr>)
                 else
                   Inl (Error (''Entity already registered with table name '' @ dq @
                               tableName meta @ dq @ ''; refusing to rename to '' @ dq @ n @
                               dq @ ''.''))
               else Inr (meta, r)))"

text \<open>
  The registration calls return the error thrown, if any, and the registry after the
  call.  \<^verbatim>\<open>addEntity(target, name)\<close>:
\<close>

definition addEntity :: "ctor \<Rightarrow> string option \<Rightarrow> registry \<Rightarrow> error option \<times> registry" where
  "addEntity tgt name r =
     (if sealed r then (Some (sealedError ''register entities''), r)
      else case ensureEntityMeta tgt name r of
             Inl e \<Rightarrow> (Some e, r)
           | Inr (meta, r') \<Rightarrow> (None, r'))"

fun findIndex :: "('a \<Rightarrow> bool) \<Rightarrow> 'a list \<Rightarrow> nat option" where
  "findIndex P [] = None"
| "findIndex P (x # xs) = (if P x then Some 0 else map_option Suc (findIndex P xs))"

text \<open>
  \<^verbatim>\<open>addColumn(target, propertyKey, options)\<close>.  The first argument is the constructor
  found at \<^verbatim>\<open>target.constructor\<close>, if there is one; the second is \<^verbatim>\<open>String(propertyKey)\<close>.
  The descriptor is created before the options are checked, so a rejected registration
  can leave a new, empty descriptor behind.
\<close>

definition addColumn ::
    "ctor option \<Rightarrow> string \<Rightarrow> ColumnOptions \<Rightarrow> registry \<Rightarrow> error option \<times> registry" where
  "addColumn tgt key opts r =
     (if sealed r then (Some (sealedError ''add columns''), r)
      else case tgt of
        None \<Rightarrow>
          (Some (Error (''@Column used on an invalid target: missing constructor for property '' @
                        dq @ key @ dq @ ''.'')), r)
      | Some ctor \<Rightarrow>
          (case ensureEntityMeta ctor None r of
             Inl e \<Rightarrow> (Some e, r)
           | Inr (meta, r1) \<Rightarrow>
               let existingPrimary =
                     find (\<lambda>c. flagSet (primary (options c)) \<and> propertyKey c \<noteq> key) (columns meta) in
               if flagSet (autoIncrement opts) \<and> \<not> flagSet (primary opts) then
                 (Some (Error (''autoIncrement requires primary: true (table: '' @ tableName meta @
                               '', column: '' @ key @ '')'')), r1)
               else if flagSet (primary opts) \<and> existingPrimary \<noteq> None then
                 (Some (Error (''Multiple primary columns not supported (table: '' @ tableName meta @
                               '', columns: '' @
                               (case existingPrimary of None \<Rightarrow> [] | Some c \<Rightarrow> propertyKey c) @
                               '', '' @ key @ '')'')), r1)
               else
                 (case findIndex (\<lambda>c. propertyKey c = key) (columns meta) of
                    Some idx \<Rightarrow>
                      let col = \<lparr>propertyKey = key,
                                 options = spread (options (columns meta ! idx)) opts\<rparr> in
                      (None, r1\<lparr>byCtor := (byCtor r1)
                                   (ctor \<mapsto> meta\<lparr>columns := (columns meta)[idx := col]\<rparr>)\<rparr>)
                  | None \<Rightarrow>
                      let col = \<lparr>propertyKey = key, options = spread noOptions opts\<rparr> in
                      (None, r1\<lparr>byCtor := (byCtor r1)
                                   (ctor \<mapsto> meta\<lparr>columns := columns meta @ [col]\<rparr>)\<rparr>))))"

text \<open>\<^verbatim>\<open>getAllEntities()\<close>: the values of \<^verbatim>\<open>byTable\<close> in insertion order.\<close>

definition getAllEntities :: "registry \<Rightarrow> EntityMeta list" where
  "getAllEntities r = List.map_filter (\<lambda>entry. byCtor r (snd entry)) (byTable r)"

definition resetRegistry :: "registry \<Rightarrow> registry" where
  "resetRegistry r = \<lparr>byCtor = (\<lambda>c. None), byTable = [], sealed = False\<rparr>"

definition sealRegistry :: "registry \<Rightarrow> registry" where
  "sealRegistry r = r\<lparr>sealed := True\<rparr>"

text \<open>
  The calls that change the registry, and a run of such calls from the empty registry at
  module load.  A call that throws leaves the registry as \<open>addEntity\<close> and \<open>addColumn\<close>
  return it.
\<close>

datatype regOp =
    AddEntity ctor "string option"
  | AddColumn "ctor option" string ColumnOptions
  | SealRegistry
  | ResetRegistry

fun applyOp :: "regOp \<Rightarrow> registry \<Rightarrow> registry" where
  "applyOp (AddEntity tgt name) r = snd (addEntity tgt name r)"
| "applyOp (AddColumn tgt key opts) r = snd (addColumn tgt key opts r)"
| "applyOp SealRegistry r = sealRegistry r"
| "applyOp ResetRegistry r = resetRegistry r"

definition runOps :: "regOp list \<Rightarrow> registry" where
  "runOps ops = fold applyOp ops emptyRegistry"

text \<open>
  The loop of \<^verbatim>\<open>resolveEntity\<close> that walks from the entity's class to its root and
  \<^verbatim>\<open>unshift\<close>s each class: the chain runs from the root to the leaf.
\<close>

fun chainOf :: "ctor \<Rightarrow> ctor list \<Rightarrow> ctor list" where
  "chainOf (Ctor i n None) chain = Ctor i n None # chain"
| "chainOf (Ctor i n (Some p)) chain = chainOf p (Ctor i n (Some p) # chain)"

text \<open>The loops that fill \<^verbatim>\<open>columnsMap\<close>, a Map from property key to column.\<close>

definition setColumns ::
    "ColumnMeta list \<Rightarrow> (string \<times> ColumnMeta) list \<Rightarrow> (string \<times> ColumnMeta) list" where
  "setColumns cols columnsMap = fold (\<lambda>c m. AList.update (propertyKey c) c m) cols columnsMap"

definition mergeColumns :: "registry \<Rightarrow> ctor list \<Rightarrow> (string \<times> ColumnMeta) list" where
  "mergeColumns r chain =
     fold (\<lambda>c m. case byCtor r c of None \<Rightarrow> m | Some em \<Rightarrow> setColumns (columns em) m) chain []"

text \<open>The elements of \<^verbatim>\<open>new Set(xs)\<close>, in insertion order.\<close>

definition setElements :: "string list \<Rightarrow> string list" where
  "setElements xs = rev (remdups (rev xs))"

text \<open>\<^verbatim>\<open>parts.join(sep)\<close>\<close>

fun join :: "string \<Rightarrow> string list \<Rightarrow> string" where
  "join sep [] = []"
| "join sep [x] = x"
| "join sep (x # y # zs) = x @ sep @ join sep (y # zs)"

definition resolveEntity :: "registry \<Rightarrow> EntityMeta \<Rightarrow> error + ColumnMeta list" where
  "resolveEntity r meta =
     (let columnsMap = mergeColumns r (chainOf (target meta) []);
          primaries = filter (\<lambda>c. flagSet (primary (options c))) (map snd columnsMap);
          distinctPrimaryKeys = setElements (map propertyKey primaries) in
      if length distinctPrimaryKeys > 1 then
        Inl (Error (''Multiple primary columns across inheritance for table '' @ dq @
                    tableName meta @ dq @ '': '' @ join '', '' distinctPrimaryKeys))
      else Inr (map snd columnsMap))"

text \<open>A column is primary when its \<^verbatim>\<open>options.primary\<close> is truthy.\<close>

definition isPrimary :: "ColumnMeta \<Rightarrow> bool" where
  "isPrimary c = flagSet (primary (options c))"

definition atMostOnePrimary :: "ColumnMeta list \<Rightarrow> bool" where
  "atMostOnePrimary cols = (length (filter isPrimary cols) \<le> 1)"

text \<open>The inheritance-merged column set of an entity: the values of \<^verbatim>\<open>columnsMap\<close>.\<close>

definition mergedColumns :: "registry \<Rightarrow> EntityMeta \<Rightarrow> ColumnMeta list" where
  "mergedColumns r meta = map snd (mergeColumns r (chainOf (target meta) []))"

text \<open>
  The invariant of the registry: in every descriptor the property keys are distinct and
  at most one column is primary.
\<close>

definition columnsOk :: "ColumnMeta list \<Rightarrow> bool" where
  "columnsOk cols = (distinct (map propertyKey cols) \<and> atMostOnePrimary cols)"

definition registryOk :: "registry \<Rightarrow> bool" where
  "registryOk r = (\<forall>c m. byCtor r c = Some m \<longrightarrow> columnsOk (columns m))"

text \<open>The invariant of \<^verbatim>\<open>columnsMap\<close>: each column sits under its own property key.\<close>

definition keyed :: "(string \<times> ColumnMeta) list \<Rightarrow> bool" where
  "keyed M = (distinct (map fst M) \<and> (\<forall>p \<in> set M. fst p = propertyKey (snd p)))"

section \<open>Schema builder and version manager\<close>

text \<open>
  \<^verbatim>\<open>src/core/schema.ts\<close>.  \<^verbatim>\<open>buildTableSchema(meta)\<close>; the default \<^verbatim>\<open>sort()\<close> orders
  strings by their code units.
\<close>

definition buildTableSchema :: "registry \<Rightarrow> EntityMeta \<Rightarrow> error + string" where
  "buildTableSchema r meta =
     (case resolveEntity r meta of
        Inl e \<Rightarrow> Inl e
      | Inr cols \<Rightarrow>
          let prim = find (\<lambda>c. flagSet (primary (options c))) cols;
              primaryPart =
                (case prim of
                   Some p \<Rightarrow> if flagSet (autoIncrement (options p)) then ''++'' @ propertyKey p
                             else propertyKey p
                 | None \<Rightarrow> []);
              otherCols = sort (map propertyKey
                                  (filter (\<lambda>c. \<not> flagSet (primary (options c))) cols));
              parts = (if primaryPart \<noteq> [] then [primaryPart] else []) @ otherCols in
          Inr (join '', '' parts))"

text \<open>
  \<^verbatim>\<open>array.sort(compare)\<close> is stable; for a comparator that is a total preorder its result
  is the one insertion sort computes.
\<close>

fun insertBy :: "('a \<Rightarrow> 'a \<Rightarrow> int) \<Rightarrow> 'a \<Rightarrow> 'a list \<Rightarrow> 'a list" where
  "insertBy cmp x [] = [x]"
| "insertBy cmp x (y # ys) = (if cmp x y \<le> 0 then x # y # ys else y # insertBy cmp x ys)"

definition sortBy :: "('a \<Rightarrow> 'a \<Rightarrow> int) \<Rightarrow> 'a list \<Rightarrow> 'a list" where
  "sortBy cmp xs = foldr (insertBy cmp) xs []"

text \<open>
  \<^verbatim>\<open>String.prototype.localeCompare\<close> depends on the host's locale data; it is a parameter
  of the functions that sort by it.
\<close>

type_synonym localeCompare = "string \<Rightarrow> string \<Rightarrow> int"

text \<open>
  An object with string values, as the list of its properties in the order of their
  creation.  \<^verbatim>\<open>Object.entries\<close> enumerates the properties whose names are array indices
  first, in numeric order, then the others in order of creation.
\<close>

type_synonym strObject = "(string \<times> string) list"

definition isDigit :: "char \<Rightarrow> bool" where
  "isDigit c = (48 \<le> (of_char c :: nat) \<and> (of_char c :: nat) \<le> 57)"

definition readNat :: "string \<Rightarrow> nat" where
  "readNat s = foldl (\<lambda>n c. 10 * n + ((of_char c :: nat) - 48)) 0 s"

definition isArrayIndex :: "string \<Rightarrow> bool" where
  "isArrayIndex s =
     (s \<noteq> [] \<and> list_all isDigit s \<and> (s = ''0'' \<or> hd s \<noteq> CHR ''0'') \<and> readNat s < 4294967295)"

definition objectEntries :: "strObject \<Rightarrow> (string \<times> string) list" where
  "objectEntries obj =
     sort_key (\<lambda>p. readNat (fst p)) (filter (\<lambda>p. isArrayIndex (fst p)) obj) @
     filter (\<lambda>p. \<not> isArrayIndex (fst p)) obj"

text \<open>
  The assignment \<^verbatim>\<open>obj[key] = value\<close> of a string value: it creates or overwrites the
  property, except under the name \<^verbatim>\<open>__proto__\<close>, where assigning a string does nothing.
\<close>

definition assignProp :: "string \<Rightarrow> string \<Rightarrow> strObject \<Rightarrow> strObject" where
  "assignProp key v obj = (if key = ''__proto__'' then obj else AList.update key v obj)"

text \<open>The loop of \<^verbatim>\<open>buildSchema\<close>: \<^verbatim>\<open>schema[meta.tableName] = buildTableSchema(meta)\<close>.\<close>

fun buildTables :: "registry \<Rightarrow> EntityMeta list \<Rightarrow> strObject \<Rightarrow> error + strObject" where
  "buildTables r [] schema = Inr schema"
| "buildTables r (meta # metas) schema =
     (case buildTableSchema r meta of
        Inl e \<Rightarrow> Inl e
      | Inr s \<Rightarrow> buildTables r metas (assignProp (tableName meta) s schema))"

definition buildSchema :: "localeCompare \<Rightarrow> registry \<Rightarrow> error + strObject" where
  "buildSchema lc r =
     buildTables r (sortBy (\<lambda>a b. lc (tableName a) (tableName b)) (getAllEntities r)) []"

text \<open>
  \<^verbatim>\<open>JSON.stringify\<close> on a string, on the array of entries, and on a version record.
\<close>

definition hexDigit :: "nat \<Rightarrow> char" where
  "hexDigit d = (if d < 10 then char_of (48 + d) else char_of (87 + d))"

definition jsonEscape :: "char \<Rightarrow> string" where
  "jsonEscape c =
     (let n = (of_char c :: nat) in
      if n = 34 then [CHR 0x5C, CHR 0x22]
      else if n = 92 then [CHR 0x5C, CHR 0x5C]
      else if n = 8 then [CHR 0x5C, CHR ''b'']
      else if n = 12 then [CHR 0x5C, CHR ''f'']
      else if n = 10 then [CHR 0x5C, CHR ''n'']
      else if n = 13 then [CHR 0x5C, CHR ''r'']
      else if n = 9 then [CHR 0x5C, CHR ''t'']
      else if n < 32 then [CHR 0x5C, CHR ''u'', CHR ''0'', CHR ''0'', hexDigit (n div 16), hexDigit (n mod 16)]
      else [c])"

definition jsonString :: "string \<Rightarrow> string" where
  "jsonString s = dq @ concat (map jsonEscape s) @ dq"

definition jsonEntries :: "(string \<times> string) list \<Rightarrow> string" where
  "jsonEntries es =
     ''['' @ join '','' (map (\<lambda>e. ''['' @ jsonString (fst e) @ '','' @ jsonString (snd e) @ '']'') es) @ '']''"

text \<open>\<^verbatim>\<open>computeSignature(obj)\<close>\<close>

definition computeSignature :: "localeCompare \<Rightarrow> strObject \<Rightarrow> string" where
  "computeSignature lc obj =
     jsonEntries (sortBy (\<lambda>a b. lc (fst a) (fst b)) (objectEntries obj))"

text \<open>
  The version record.  Versions are numbers that take integer values; they are modelled
  by integers (the addition \<^verbatim>\<open>version + 1\<close> is exact below \<open>2^53\<close>).
\<close>

record VersionRecord =
  version :: int
  signature :: string

definition showInt :: "int \<Rightarrow> string" where
  "showInt i = (if i < 0 then ''-'' @ showNat (nat (- i)) else showNat (nat i))"

definition jsonRecord :: "VersionRecord \<Rightarrow> string" where
  "jsonRecord vr =
     ''{'' @ dq @ ''version'' @ dq @ '':'' @ showInt (version vr) @ '','' @
     dq @ ''signature'' @ dq @ '':'' @ jsonString (signature vr) @ ''}''"

text \<open>
  \<^verbatim>\<open>JSON.parse\<close> is the host's; it is a parameter.  It throws on a text that is no JSON,
  and \<^verbatim>\<open>loadStoredVersion\<close> declares every other result to be a version record.
\<close>

datatype parsed = SyntaxError | Parsed VersionRecord

type_synonym jsonParse = "string \<Rightarrow> parsed"

text \<open>
  The host: \<open>None\<close> when \<^verbatim>\<open>window\<close> is undefined, the content of \<^verbatim>\<open>localStorage\<close>
  otherwise.
\<close>

type_synonym localStorage = "string \<Rightarrow> string option"

type_synonym host = "localStorage option"

definition versionKey :: "string \<Rightarrow> string" where
  "versionKey dbName = ''__dexie_dynamic_version__::'' @ dbName"

definition defaultRecord :: VersionRecord where
  "defaultRecord = \<lparr>version = 1, signature = []\<rparr>"

definition loadStoredVersion :: "jsonParse \<Rightarrow> host \<Rightarrow> string \<Rightarrow> VersionRecord" where
  "loadStoredVersion parse h dbName =
     (case h of
        None \<Rightarrow> defaultRecord
      | Some ls \<Rightarrow>
          (case ls (versionKey dbName) of
             None \<Rightarrow> defaultRecord
           | Some raw \<Rightarrow>
               if raw = [] then defaultRecord
               else (case parse raw of SyntaxError \<Rightarrow> defaultRecord | Parsed vr \<Rightarrow> vr)))"

text \<open>\<^verbatim>\<open>storeVersion\<close> and \<^verbatim>\<open>getVersion\<close>: the result and the host after the call.\<close>

definition storeVersion :: "host \<Rightarrow> string \<Rightarrow> int \<Rightarrow> string \<Rightarrow> int \<times> host" where
  "storeVersion h dbName v sig =
     (case h of
        None \<Rightarrow> (v, h)
      | Some ls \<Rightarrow>
          (v, Some (ls(versionKey dbName \<mapsto> jsonRecord \<lparr>version = v, signature = sig\<rparr>))))"

definition getVersion ::
    "jsonParse \<Rightarrow> localeCompare \<Rightarrow> host \<Rightarrow> string \<Rightarrow> strObject \<Rightarrow> int \<times> host" where
  "getVersion parse lc h dbName schema =
     (let sig = computeSignature lc schema;
          stored = loadStoredVersion parse h dbName in
      if sig = signature stored then (version stored, h)
      else storeVersion h dbName (version stored + 1) sig)"

section \<open>Notions used to state the properties of the schema builder\<close>

text \<open>
  A run of registration calls that stops at the first call that throws, as the loading
  of the annotated classes does.
\<close>

fun stepOp :: "regOp \<Rightarrow> registry \<Rightarrow> error option \<times> registry" where
  "stepOp (AddEntity tgt name) r = addEntity tgt name r"
| "stepOp (AddColumn tgt key opts) r = addColumn tgt key opts r"
| "stepOp SealRegistry r = (None, sealRegistry r)"
| "stepOp ResetRegistry r = (None, resetRegistry r)"

fun runChecked :: "regOp list \<Rightarrow> registry \<Rightarrow> error + registry" where
  "runChecked [] r = Inr r"
| "runChecked (op # ops) r =
     (case stepOp op r of
        (Some e, r') \<Rightarrow> Inl e
      | (None, r') \<Rightarrow> runChecked ops r')"

fun isRegistration :: "regOp \<Rightarrow> bool" where
  "isRegistration (AddEntity tgt name) = True"
| "isRegistration (AddColumn tgt key opts) = True"
| "isRegistration op = False"

text \<open>
  No two registrations of one property of one entity carry different options.
\<close>

definition consistentOptions :: "regOp set \<Rightarrow> bool" where
  "consistentOptions T =
     (\<forall>c k o1 o2. AddColumn (Some c) k o1 \<in> T \<and> AddColumn (Some c) k o2 \<in> T \<longrightarrow> o1 = o2)"

text \<open>
  \<^verbatim>\<open>localeCompare\<close> orders the names of a set totally, transitively and without ties
  between different names.
\<close>

definition strictOrderOn :: "localeCompare \<Rightarrow> string set \<Rightarrow> bool" where
  "strictOrderOn lc N =
     ((\<forall>a \<in> N. \<forall>b \<in> N. lc a b \<le> 0 \<or> lc b a \<le> 0) \<and>
      (\<forall>a \<in> N. \<forall>b \<in> N. lc a b \<le> 0 \<and> lc b a \<le> 0 \<longrightarrow> a = b) \<and>
      (\<forall>a \<in> N. \<forall>b \<in> N. \<forall>c \<in> N. lc a b \<le> 0 \<and> lc b c \<le> 0 \<longrightarrow> lc a c \<le> 0))"

text \<open>
  Two registries hold the same entities: the same table names for the same classes, and
  for each class the same table name and the same columns, in whatever order.
\<close>

definition sameColumns :: "EntityMeta \<Rightarrow> EntityMeta \<Rightarrow> bool" where
  "sameColumns m1 m2 =
     (target m1 = target m2 \<and> tableName m1 = tableName m2 \<and> set (columns m1) = set (columns m2))"

definition sameEntities :: "registry \<Rightarrow> registry \<Rightarrow> bool" where
  "sameEntities r1 r2 =
     (set (byTable r1) = set (byTable r2) \<and>
      (\<forall>c. rel_option sameColumns (byCtor r1 c) (byCtor r2 c)))"

text \<open>
  The tables of a registry are consistent: table names are distinct and each names a
  descriptor that carries that name.
\<close>

definition registryWf :: "registry \<Rightarrow> bool" where
  "registryWf r =
     (distinct (map fst (byTable r)) \<and>
      (\<forall>e \<in> set (byTable r). \<exists>m. byCtor r (snd e) = Some m \<and> tableName m = fst e))"

text \<open>The descriptor behind an entry of \<^verbatim>\<open>byTable\<close>.\<close>

definition metaOf :: "registry \<Rightarrow> string \<times> ctor \<Rightarrow> EntityMeta" where
  "metaOf r e = (case byCtor r (snd e) of Some m \<Rightarrow> m
                 | None \<Rightarrow> \<lparr>target = snd e, tableName = fst e, columns = []\<rparr>)"

text \<open>
  What a set of accepted registrations says about the registry they lead to: which
  classes have a descriptor, the columns of each, the table name of each (the class name
  until an explicit name different from it is given, that name from then on), and the
  entries of \<^verbatim>\<open>byTable\<close>.
\<close>

definition namesFor :: "regOp set \<Rightarrow> ctor \<Rightarrow> string set" where
  "namesFor S c = {n. AddEntity c (Some n) \<in> S \<and> n \<noteq> []}"

definition nameOk :: "regOp set \<Rightarrow> ctor \<Rightarrow> string \<Rightarrow> bool" where
  "nameOk S c n =
     ((namesFor S c \<subseteq> {ctorName c} \<and> n = ctorName c) \<or>
      (n \<noteq> ctorName c \<and> namesFor S c - {ctorName c} = {n}))"

definition colsFor :: "regOp set \<Rightarrow> ctor \<Rightarrow> ColumnMeta set" where
  "colsFor S c =
     {col. \<exists>k opts. AddColumn (Some c) k opts \<in> S \<and>
                    col = \<lparr>propertyKey = k, options = spread noOptions opts\<rparr>}"

definition mentioned :: "regOp set \<Rightarrow> ctor \<Rightarrow> bool" where
  "mentioned S c = ((\<exists>n. AddEntity c n \<in> S) \<or> (\<exists>k opts. AddColumn (Some c) k opts \<in> S))"

definition describes :: "regOp set \<Rightarrow> registry \<Rightarrow> bool" where
  "describes S r =
     ((\<forall>c. byCtor r c \<noteq> None \<longleftrightarrow> mentioned S c) \<and>
      (\<forall>c m. byCtor r c = Some m \<longrightarrow>
         target m = c \<and> set (columns m) = colsFor S c \<and> nameOk S c (tableName m)) \<and>
      set (byTable r) = {e. \<exists>m. byCtor r (snd e) = Some m \<and> tableName m = fst e} \<and>
      distinct (map fst (byTable r)))"

definition tableInv :: "registry \<Rightarrow> bool" where
  "tableInv r =
     (set (byTable r) = {e. \<exists>m. byCtor r (snd e) = Some m \<and> tableName m = fst e} \<and>
      distinct (map fst (byTable r)))"

section \<open>Properties of the query engine\<close>

subsection \<open>The compiled predicate\<close>

text \<open>
  \<open>evalFieldFilter\<close> is written by cases on the condition; this is the form of the source.
\<close>

lemma evalFieldFilter_unfold:
  "evalFieldFilter lt v c =
     (if \<not> isObject c then strict_eq v c else evalEntries lt v (ownEntries c))"
  by (cases c) simp_all

lemma isObject_truthy: "isObject v \<Longrightarrow> truthy v"
  by (cases v) auto

lemma isArray_not_isObject: "isArray v \<Longrightarrow> \<not> isObject v"
  by (cases v) auto

lemma buildPredicate_falsy: "\<not> truthy wh \<Longrightarrow> buildPredicate lt wh item"
  by (subst buildPredicate.simps) simp

lemma buildPredicate_unfold:
  assumes "truthy wh"
  shows "buildPredicate lt wh item \<longleftrightarrow>
       (\<forall>k \<in> set (fieldKeys wh). evalFieldFilter lt (getProp item k) (getProp wh k))
     \<and> (isArray (getProp wh ''AND'') \<longrightarrow>
            (\<forall>sub \<in> set (elements (getProp wh ''AND'')). buildPredicate lt sub item))
     \<and> (isObject (getProp wh ''AND'') \<longrightarrow> buildPredicate lt (getProp wh ''AND'') item)
     \<and> (isArray (getProp wh ''OR'') \<and> elements (getProp wh ''OR'') \<noteq> [] \<longrightarrow>
            (\<exists>sub \<in> set (elements (getProp wh ''OR'')). buildPredicate lt sub item))
     \<and> (isArray (getProp wh ''NOT'') \<longrightarrow>
            (\<forall>sub \<in> set (elements (getProp wh ''NOT'')). \<not> buildPredicate lt sub item))
     \<and> (isObject (getProp wh ''NOT'') \<longrightarrow> \<not> buildPredicate lt (getProp wh ''NOT'') item)"
proof -
  define andN where "andN = getProp wh ''AND''"
  define orN where "orN = getProp wh ''OR''"
  define notN where "notN = getProp wh ''NOT''"
  define F where "F = (\<forall>k \<in> set (fieldKeys wh).
            evalFieldFilter lt (getProp item k) (getProp wh k))"
  have F: "list_all (\<lambda>k. evalFieldFilter lt (getProp item k) (getProp wh k)) (fieldKeys wh) = F"
    by (simp add: F_def list_all_iff)
  have unfold: "buildPredicate lt wh item =
      (F \<and> (if isArray andN then (\<forall>sub \<in> set (elements andN). buildPredicate lt sub item)
            else if isObject andN then buildPredicate lt andN item else True)
         \<and> (if isArray orN \<and> elements orN \<noteq> [] then (\<exists>sub \<in> set (elements orN). buildPredicate lt sub item) else True)
         \<and> (if isArray notN then (\<forall>sub \<in> set (elements notN). \<not> buildPredicate lt sub item)
            else if isObject notN then \<not> buildPredicate lt notN item else True))"
    apply (subst buildPredicate.simps)
    apply (simp only: F assms andN_def [symmetric] orN_def [symmetric] notN_def [symmetric])
    apply (simp add: list_all_iff list_ex_iff isObject_truthy cong: conj_cong)
    done
  have excl: "\<And>v. isArray v \<Longrightarrow> \<not> isObject v" by (rule isArray_not_isObject)
  show ?thesis
    unfolding unfold
    apply (simp only: andN_def [symmetric] orN_def [symmetric] notN_def [symmetric] F_def [symmetric])
    using excl [of andN] excl [of notN]
    apply (cases "isArray andN"; cases "isArray notN"; simp)
    done
qed

lemma size_sub:
  "isArray (getProp wh k) \<Longrightarrow> sub \<in> set (elements (getProp wh k)) \<Longrightarrow> size sub < size wh"
proof -
  assume a: "isArray (getProp wh k)" and s: "sub \<in> set (elements (getProp wh k))"
  from a have "getProp wh k \<noteq> JUndefined" by auto
  from size_getProp_obj [OF refl this] a have "size (getProp wh k) < size wh" by simp
  with size_elements [OF s] show ?thesis by simp
qed

lemma size_node: "isObject (getProp wh k) \<Longrightarrow> size (getProp wh k) < size wh"
proof -
  assume a: "isObject (getProp wh k)"
  then have "getProp wh k \<noteq> JUndefined" by auto
  from size_getProp_obj [OF refl this] a show ?thesis by simp
qed

lemma fieldKeys_not_logical: "k \<in> set (fieldKeys wh) \<Longrightarrow> k \<notin> set logical"
  by (simp add: fieldKeys_def)

lemma buildPredicate_agree:
  assumes agree: "\<forall>k. k \<notin> set logical \<longrightarrow> getProp item k = getProp item' k"
  shows "buildPredicate lt wh item = buildPredicate lt wh item'"
proof (induction wh rule: measure_induct_rule [of size])
  case (less wh)
  show ?case
  proof (cases "truthy wh")
    case False
    then show ?thesis by (simp add: buildPredicate_falsy)
  next
    case True
    have f: "(\<forall>k \<in> set (fieldKeys wh). evalFieldFilter lt (getProp item k) (getProp wh k)) =
             (\<forall>k \<in> set (fieldKeys wh). evalFieldFilter lt (getProp item' k) (getProp wh k))"
      using agree fieldKeys_not_logical by (metis (no_types, lifting))
    have subs: "\<And>k sub. isArray (getProp wh k) \<Longrightarrow> sub \<in> set (elements (getProp wh k)) \<Longrightarrow>
        buildPredicate lt sub item = buildPredicate lt sub item'"
      using less size_sub by blast
    have node: "\<And>k. isObject (getProp wh k) \<Longrightarrow>
        buildPredicate lt (getProp wh k) item = buildPredicate lt (getProp wh k) item'"
      using less size_node by blast
    have a1: "\<And>k. (isArray (getProp wh k) \<longrightarrow>
            (\<forall>sub \<in> set (elements (getProp wh k)). buildPredicate lt sub item)) =
          (isArray (getProp wh k) \<longrightarrow>
            (\<forall>sub \<in> set (elements (getProp wh k)). buildPredicate lt sub item'))"
      using subs by blast
    have a2: "\<And>k. (isObject (getProp wh k) \<longrightarrow> buildPredicate lt (getProp wh k) item) =
          (isObject (getProp wh k) \<longrightarrow> buildPredicate lt (getProp wh k) item')"
      using node by blast
    have a3: "\<And>k. (isArray (getProp wh k) \<and> elements (getProp wh k) \<noteq> [] \<longrightarrow>
            (\<exists>sub \<in> set (elements (getProp wh k)). buildPredicate lt sub item)) =
          (isArray (getProp wh k) \<and> elements (getProp wh k) \<noteq> [] \<longrightarrow>
            (\<exists>sub \<in> set (elements (getProp wh k)). buildPredicate lt sub item'))"
      using subs by blast
    have a4: "\<And>k. (isArray (getProp wh k) \<longrightarrow>
            (\<forall>sub \<in> set (elements (getProp wh k)). \<not> buildPredicate lt sub item)) =
          (isArray (getProp wh k) \<longrightarrow>
            (\<forall>sub \<in> set (elements (getProp wh k)). \<not> buildPredicate lt sub item'))"
      using subs by blast
    have a5: "\<And>k. (isObject (getProp wh k) \<longrightarrow> \<not> buildPredicate lt (getProp wh k) item) =
          (isObject (getProp wh k) \<longrightarrow> \<not> buildPredicate lt (getProp wh k) item')"
      using node by blast
    show ?thesis
      unfolding buildPredicate_unfold [OF True] f a1 a2 a3 a4 a5 by (rule refl)
  qed
qed

subsection \<open>Logical keys in the key probe\<close>

lemma map_of_filter_fst:
  "P k \<Longrightarrow> map_of (filter (\<lambda>p. P (fst p)) kvs) k = map_of kvs k"
  by (induction kvs) auto

lemma fieldKeys_filter:
  "fieldKeys (JObj r (filter (\<lambda>p. fst p \<notin> set logical) kvs)) = fieldKeys (JObj r kvs)"
  by (induction kvs) (auto simp: fieldKeys_def objectKeys_def)

lemma getProp_filter:
  "k \<notin> set logical \<Longrightarrow>
     getProp (JObj r (filter (\<lambda>p. fst p \<notin> set logical) kvs)) k = getProp (JObj r kvs) k"
  using map_of_filter_fst [of "\<lambda>k. k \<notin> set logical" k kvs]
  by (simp add: getProp_def)

lemma hasOnlyKeys_mem:
  "hasOnlyKeys (fromEntriesKeys ks) ps \<Longrightarrow> p \<in> set ps \<Longrightarrow> p \<in> set ks"
  by (auto simp: hasOnlyKeys_def fromEntriesKeys_def list_all_iff split: if_splits)

lemma tryBuildKeyFromWhere_filter:
  "tryBuildKeyFromWhere kp (JObj r (filter (\<lambda>p. fst p \<notin> set logical) kvs)) =
   tryBuildKeyFromWhere kp (JObj r kvs)"
proof (cases kp)
  case KNull
  then show ?thesis by (simp add: tryBuildKeyFromWhere_def)
next
  case (KString p)
  show ?thesis
  proof (cases "hasOnlyKeys (fromEntriesKeys (fieldKeys (JObj r kvs))) [p]")
    case True
    from hasOnlyKeys_mem [OF this] have "p \<notin> set logical"
      by (simp add: fieldKeys_not_logical)
    from getProp_filter [OF this] True KString show ?thesis
      by (simp add: tryBuildKeyFromWhere_def fieldKeys_filter)
  next
    case False
    with KString show ?thesis
      by (simp add: tryBuildKeyFromWhere_def fieldKeys_filter)
  qed
next
  case (KArray ps)
  show ?thesis
  proof (cases "hasOnlyKeys (fromEntriesKeys (fieldKeys (JObj r kvs))) ps")
    case True
    from hasOnlyKeys_mem [OF this] have "\<forall>p \<in> set ps. p \<notin> set logical"
      using fieldKeys_not_logical by blast
    then have "map (\<lambda>k. keyPart (getProp (JObj r (filter (\<lambda>p. fst p \<notin> set logical) kvs)) k)) ps =
               map (\<lambda>k. keyPart (getProp (JObj r kvs) k)) ps"
      by (simp add: getProp_filter)
    with True KArray show ?thesis
      by (simp add: tryBuildKeyFromWhere_def fieldKeys_filter)
  next
    case False
    with KArray show ?thesis
      by (simp add: tryBuildKeyFromWhere_def fieldKeys_filter)
  qed
qed

subsection \<open>The operators \<^verbatim>\<open>in\<close> and \<^verbatim>\<open>notIn\<close>\<close>

text \<open>
  Claim C9.  For every field value \<open>v\<close> and every operand \<open>x\<close> that is not an array, the
  field filter \<^verbatim>\<open>{notIn: x}\<close> accepts \<open>v\<close>, whereas the field filter \<^verbatim>\<open>{in: x}\<close> with the
  same operand rejects \<open>v\<close>: the two operators are not symmetric for malformed operands.
\<close>

theorem notIn_in_non_array:
  "\<not> isArray x \<Longrightarrow>
     evalFieldFilter lt v (JObj r [(''notIn'', x)]) \<and>
     \<not> evalFieldFilter lt v (JObj r' [(''in'', x)])"
  by simp

theorem notIn_in_non_array_witness:
  "\<not> isArray (JNum 5) \<and>
   evalFieldFilter (\<lambda>a b. None) (JNum 5) (JObj 1 [(''notIn'', JNum 5)]) \<and>
   \<not> evalFieldFilter (\<lambda>a b. None) (JNum 5) (JObj 2 [(''in'', JNum 5)])"
  using notIn_in_non_array [of "JNum 5" "\<lambda>a b. None" "JNum 5" 1 2] by simp

subsection \<open>What the predicate accepts\<close>

text \<open>
  Claim C6.  For every where-condition and every record, the compiled predicate accepts
  the record if and only if all of the following hold: every field-level filter holds;
  every condition under \<^verbatim>\<open>AND\<close> (a list or a single condition) holds; when \<^verbatim>\<open>OR\<close> is a
  non-empty list, at least one of its conditions holds; and no condition under \<^verbatim>\<open>NOT\<close>
  (a list or a single condition) holds.  An absent condition accepts every record.
\<close>

theorem buildPredicate_accepts_iff:
  "buildPredicate lt wh item \<longleftrightarrow>
     (truthy wh \<longrightarrow>
       (\<forall>k \<in> set (objectKeys wh). k \<notin> {''AND'', ''OR'', ''NOT''} \<longrightarrow>
            evalFieldFilter lt (getProp item k) (getProp wh k))
     \<and> (isArray (getProp wh ''AND'') \<longrightarrow>
            (\<forall>sub \<in> set (elements (getProp wh ''AND'')). buildPredicate lt sub item))
     \<and> (isObject (getProp wh ''AND'') \<longrightarrow> buildPredicate lt (getProp wh ''AND'') item)
     \<and> (isArray (getProp wh ''OR'') \<and> elements (getProp wh ''OR'') \<noteq> [] \<longrightarrow>
            (\<exists>sub \<in> set (elements (getProp wh ''OR'')). buildPredicate lt sub item))
     \<and> (isArray (getProp wh ''NOT'') \<longrightarrow>
            (\<forall>sub \<in> set (elements (getProp wh ''NOT'')). \<not> buildPredicate lt sub item))
     \<and> (isObject (getProp wh ''NOT'') \<longrightarrow> \<not> buildPredicate lt (getProp wh ''NOT'') item))"
proof (cases "truthy wh")
  case False
  then show ?thesis by (simp add: buildPredicate_falsy)
next
  case True
  have "(\<forall>k \<in> set (fieldKeys wh). evalFieldFilter lt (getProp item k) (getProp wh k)) =
        (\<forall>k \<in> set (objectKeys wh). k \<notin> {''AND'', ''OR'', ''NOT''} \<longrightarrow>
            evalFieldFilter lt (getProp item k) (getProp wh k))"
    by (auto simp: fieldKeys_def logical_def)
  with buildPredicate_unfold [OF True, of lt item] True show ?thesis
    by simp
qed

theorem buildPredicate_accepts_iff_witness:
  "buildPredicate (\<lambda>a b. None)
     (JObj 1 [(''age'', JNum 30),
              (''OR'', JArr 2 [JObj 3 [(''status'', JStr ''active'')],
                               JObj 4 [(''status'', JStr ''pending'')]]),
              (''NOT'', JObj 5 [(''name'', JStr ''bob'')])])
     (JObj 10 [(''age'', JNum 30), (''status'', JStr ''pending''), (''name'', JStr ''Ann'')])
   \<and> \<not> buildPredicate (\<lambda>a b. None)
     (JObj 1 [(''age'', JNum 30),
              (''OR'', JArr 2 [JObj 3 [(''status'', JStr ''active'')],
                               JObj 4 [(''status'', JStr ''pending'')]]),
              (''NOT'', JObj 5 [(''name'', JStr ''bob'')])])
     (JObj 11 [(''age'', JNum 30), (''status'', JStr ''closed''), (''name'', JStr ''Ann'')])"
proof -
  let ?lt = "\<lambda>a b. None :: bool option"
  let ?w = "JObj 1 [(''age'', JNum 30),
              (''OR'', JArr 2 [JObj 3 [(''status'', JStr ''active'')],
                               JObj 4 [(''status'', JStr ''pending'')]]),
              (''NOT'', JObj 5 [(''name'', JStr ''bob'')])]"
  let ?a = "JObj 10 [(''age'', JNum 30), (''status'', JStr ''pending''), (''name'', JStr ''Ann'')]"
  let ?b = "JObj 11 [(''age'', JNum 30), (''status'', JStr ''closed''), (''name'', JStr ''Ann'')]"
  have t: "\<And>r kvs. truthy (JObj r kvs)" by simp
  have s1: "buildPredicate ?lt (JObj 3 [(''status'', JStr ''active'')]) ?a = False"
    using buildPredicate_unfold [OF t, of ?lt 3 "[(''status'', JStr ''active'')]" ?a]
    by (simp add: fieldKeys_def objectKeys_def getProp_def logical_def)
  have s2: "buildPredicate ?lt (JObj 4 [(''status'', JStr ''pending'')]) ?a = True"
    using buildPredicate_unfold [OF t, of ?lt 4 "[(''status'', JStr ''pending'')]" ?a]
    by (simp add: fieldKeys_def objectKeys_def getProp_def logical_def)
  have s3: "buildPredicate ?lt (JObj 5 [(''name'', JStr ''bob'')]) ?a = False"
    using buildPredicate_unfold [OF t, of ?lt 5 "[(''name'', JStr ''bob'')]" ?a]
    by (simp add: fieldKeys_def objectKeys_def getProp_def logical_def)
  have s4: "buildPredicate ?lt (JObj 3 [(''status'', JStr ''active'')]) ?b = False"
    using buildPredicate_unfold [OF t, of ?lt 3 "[(''status'', JStr ''active'')]" ?b]
    by (simp add: fieldKeys_def objectKeys_def getProp_def logical_def)
  have s5: "buildPredicate ?lt (JObj 4 [(''status'', JStr ''pending'')]) ?b = False"
    using buildPredicate_unfold [OF t, of ?lt 4 "[(''status'', JStr ''pending'')]" ?b]
    by (simp add: fieldKeys_def objectKeys_def getProp_def logical_def)
  note s = s1 s2 s3 s4 s5
  have "buildPredicate ?lt ?w ?a"
    using buildPredicate_accepts_iff [of ?lt ?w ?a]
    by (simp add: s objectKeys_def getProp_def)
  moreover have "\<not> buildPredicate ?lt ?w ?b"
    using buildPredicate_accepts_iff [of ?lt ?w ?b]
    by (simp add: s objectKeys_def getProp_def)
  ultimately show ?thesis by simp
qed

subsection \<open>The logical keys are never field filters\<close>

text \<open>
  Claim C10.  The keys named \<^verbatim>\<open>AND\<close>, \<^verbatim>\<open>OR\<close> and \<^verbatim>\<open>NOT\<close> are always read as logical
  combinators and never as field filters, in predicate compilation and in primary-key
  extraction alike: the compiled predicate gives the same answer on two records that
  differ only in fields of those names, and the key extracted from a condition is the
  one extracted from the condition without its entries of those names.
\<close>

theorem logical_keys_never_field_filters:
  assumes "\<forall>k. k \<notin> {''AND'', ''OR'', ''NOT''} \<longrightarrow> getProp item k = getProp item' k"
  shows "buildPredicate lt wh item = buildPredicate lt wh item' \<and>
         tryBuildKeyFromWhere kp (JObj r (filter (\<lambda>p. fst p \<notin> {''AND'', ''OR'', ''NOT''}) kvs)) =
         tryBuildKeyFromWhere kp (JObj r kvs)"
proof -
  have l: "set logical = {''AND'', ''OR'', ''NOT''}"
    by (simp add: logical_def)
  from assms have "\<forall>k. k \<notin> set logical \<longrightarrow> getProp item k = getProp item' k"
    by (simp only: l)
  then have "buildPredicate lt wh item = buildPredicate lt wh item'"
    by (rule buildPredicate_agree)
  moreover from tryBuildKeyFromWhere_filter [of kp r kvs]
  have "tryBuildKeyFromWhere kp (JObj r (filter (\<lambda>p. fst p \<notin> {''AND'', ''OR'', ''NOT''}) kvs)) =
        tryBuildKeyFromWhere kp (JObj r kvs)"
    by (simp only: l)
  ultimately show ?thesis by simp
qed

theorem logical_keys_never_field_filters_witness:
  "buildPredicate (\<lambda>a b. None) (JObj 1 [(''x'', JNum 2), (''AND'', JNum 1)])
      (JObj 2 [(''AND'', JNum 1), (''x'', JNum 2)]) =
   buildPredicate (\<lambda>a b. None) (JObj 1 [(''x'', JNum 2), (''AND'', JNum 1)])
      (JObj 3 [(''AND'', JNum 99), (''x'', JNum 2)])
   \<and> tryBuildKeyFromWhere (KString ''x'')
        (JObj 1 (filter (\<lambda>p. fst p \<notin> {''AND'', ''OR'', ''NOT''})
                   [(''x'', JNum 2), (''AND'', JNum 1)])) =
     tryBuildKeyFromWhere (KString ''x'') (JObj 1 [(''x'', JNum 2), (''AND'', JNum 1)])"
proof -
  have "\<forall>k. k \<notin> {''AND'', ''OR'', ''NOT''} \<longrightarrow>
          getProp (JObj 2 [(''AND'', JNum 1), (''x'', JNum 2)]) k =
          getProp (JObj 3 [(''AND'', JNum 99), (''x'', JNum 2)]) k"
    by (simp add: getProp_def)
  from logical_keys_never_field_filters [OF this] show ?thesis
    by blast
qed

subsection \<open>The shape of a primary-key probe\<close>

lemma hasOnlyKeys_single:
  "distinct ks \<Longrightarrow> hasOnlyKeys (fromEntriesKeys ks) [p] \<longleftrightarrow> ks = [p]"
  by (cases ks; cases "tl ks") (auto simp: hasOnlyKeys_def fromEntriesKeys_def)

lemma hasOnlyKeys_set:
  assumes "distinct ks" "distinct ps"
  shows "hasOnlyKeys (fromEntriesKeys ks) ps \<longleftrightarrow> set ks = set ps"
proof -
  have main: "length ks = length ps \<and> set ps \<subseteq> set ks \<longleftrightarrow> set ks = set ps"
  proof
    assume h: "length ks = length ps \<and> set ps \<subseteq> set ks"
    then have "card (set ps) = card (set ks)"
      using assms by (simp add: distinct_card)
    with h show "set ks = set ps"
      by (metis List.finite_set card_subset_eq)
  next
    assume "set ks = set ps"
    then show "length ks = length ps \<and> set ps \<subseteq> set ks"
      using assms by (metis distinct_card order_refl)
  qed
  have r: "remdups ks = ks"
    using assms(1) by (rule distinct_remdups_id)
  have "hasOnlyKeys (fromEntriesKeys ks) ps \<longleftrightarrow> length ks = length ps \<and> set ps \<subseteq> set ks"
    by (auto simp: hasOnlyKeys_def fromEntriesKeys_def r list_all_iff)
  with main show ?thesis by simp
qed

text \<open>
  Claim C2, as the code has it.  The probe looks only at the field-level keys: they must
  be exactly the component name(s) of the primary key.  For a simple key the result is
  the field's filter itself when that is no object, and the operand of \<^verbatim>\<open>equals\<close> when
  it is an object, whatever other operators the object carries; an object without
  \<^verbatim>\<open>equals\<close> gives no match.  For a compound key the result is the tuple of these parts
  in declared key order.  Every other shape gives no match.
\<close>

theorem tryBuildKeyFromWhere_shape:
  assumes "distinct (objectKeys wh)"
  shows "tryBuildKeyFromWhere KNull wh = JUndefined
     \<and> tryBuildKeyFromWhere (KString p) wh =
         (if truthy wh \<and> p \<noteq> [] \<and> fieldKeys wh = [p] then keyPart (getProp wh p)
          else JUndefined)
     \<and> (distinct ps \<longrightarrow>
         tryBuildKeyFromWhere (KArray ps) wh =
           (if truthy wh \<and> set (fieldKeys wh) = set ps
            then JArr 0 (map (\<lambda>k. keyPart (getProp wh k)) ps)
            else JUndefined))"
proof -
  have d: "distinct (fieldKeys wh)"
    using assms by (simp add: fieldKeys_def)
  have "tryBuildKeyFromWhere KNull wh = JUndefined"
    by (simp add: tryBuildKeyFromWhere_def)
  moreover have "tryBuildKeyFromWhere (KString p) wh =
         (if truthy wh \<and> p \<noteq> [] \<and> fieldKeys wh = [p] then keyPart (getProp wh p)
          else JUndefined)"
    using hasOnlyKeys_single [OF d, of p]
    by (auto simp: tryBuildKeyFromWhere_def keyPart_def Let_def)
  moreover have "distinct ps \<longrightarrow>
         tryBuildKeyFromWhere (KArray ps) wh =
           (if truthy wh \<and> set (fieldKeys wh) = set ps
            then JArr 0 (map (\<lambda>k. keyPart (getProp wh k)) ps)
            else JUndefined)"
    using hasOnlyKeys_set [OF d, of ps]
    by (auto simp: tryBuildKeyFromWhere_def Let_def)
  ultimately show ?thesis by blast
qed

theorem tryBuildKeyFromWhere_shape_witness:
  "tryBuildKeyFromWhere (KString ''id'') (JObj 1 [(''id'', JObj 2 [(''equals'', JNum 7)])]) = JNum 7
   \<and> tryBuildKeyFromWhere (KArray [''a'', ''b''])
        (JObj 1 [(''b'', JNum 2), (''a'', JObj 2 [(''equals'', JStr ''x'')])]) =
      JArr 0 [JStr ''x'', JNum 2]
   \<and> tryBuildKeyFromWhere (KString ''id'')
        (JObj 1 [(''id'', JNum 7), (''name'', JStr ''Ann'')]) = JUndefined"
proof -
  have 1: "distinct (objectKeys (JObj 1 [(''id'', JObj 2 [(''equals'', JNum 7)])]))"
    and 2: "distinct (objectKeys (JObj 1 [(''b'', JNum 2), (''a'', JObj 2 [(''equals'', JStr ''x'')])]))"
    and 3: "distinct (objectKeys (JObj 1 [(''id'', JNum 7), (''name'', JStr ''Ann'')]))"
    and 4: "distinct [''a'', ''b'']"
    by (simp_all add: objectKeys_def)
  show ?thesis
    using tryBuildKeyFromWhere_shape [OF 1, of "''id''" "[]"]
      tryBuildKeyFromWhere_shape [OF 2, of "''a''" "[''a'', ''b'']"]
      tryBuildKeyFromWhere_shape [OF 3, of "''id''" "[]"] 4
    by (simp add: fieldKeys_def objectKeys_def logical_def keyPart_def getProp_def insert_commute)
qed

text \<open>
  The condition \<^verbatim>\<open>{id: {equals: 1, gt: 5}}\<close> on a table keyed by \<^verbatim>\<open>id\<close>: the filter is
  no literal and \<^verbatim>\<open>equals\<close> is not its only operator, yet the probe returns the key 1.
\<close>

theorem tryBuildKeyFromWhere_counterexample:
  "tryBuildKeyFromWhere (KString ''id'')
     (JObj 1 [(''id'', JObj 2 [(''equals'', JNum 1), (''gt'', JNum 5)])]) = JNum 1"
  by (simp add: tryBuildKeyFromWhere_def hasOnlyKeys_def fromEntriesKeys_def fieldKeys_def
      objectKeys_def getProp_def logical_def)

subsection \<open>Placement of absent and null values in the order\<close>




subsection \<open>Deleting a record\<close>












section \<open>Properties of the registry\<close>

subsection \<open>Registration keeps at most one primary column\<close>

lemma atMostOne_distinct:
  assumes "distinct xs"
  shows "length (filter P xs) \<le> 1 \<longleftrightarrow> (\<forall>a \<in> set xs. \<forall>b \<in> set xs. P a \<longrightarrow> P b \<longrightarrow> a = b)"
proof -
  from assms have "distinct (filter P xs)" by simp
  then have "length (filter P xs) = card (set (filter P xs))"
    by (rule distinct_card [symmetric])
  moreover have "card (set (filter P xs)) \<le> Suc 0 \<longleftrightarrow>
      (\<forall>a \<in> set (filter P xs). \<forall>b \<in> set (filter P xs). a = b)"
    by (rule card_le_Suc0_iff_eq) simp
  ultimately show ?thesis by auto
qed

lemma distinct_keys_distinct: "distinct (map propertyKey xs) \<Longrightarrow> distinct xs"
  by (simp add: distinct_map)

lemma columnsOk_iff:
  "columnsOk xs \<longleftrightarrow> distinct (map propertyKey xs) \<and>
     (\<forall>a \<in> set xs. \<forall>b \<in> set xs. isPrimary a \<longrightarrow> isPrimary b \<longrightarrow> a = b)"
  using atMostOne_distinct [OF distinct_keys_distinct, of xs isPrimary]
  by (auto simp: columnsOk_def atMostOnePrimary_def)

lemma findIndex_Some:
  "findIndex P xs = Some i \<Longrightarrow> i < length xs \<and> P (xs ! i)"
proof (induction xs arbitrary: i)
  case Nil
  then show ?case by simp
next
  case (Cons x xs)
  then show ?case by (cases "P x") auto
qed

lemma findIndex_None: "findIndex P xs = None \<Longrightarrow> \<forall>x \<in> set xs. \<not> P x"
  by (induction xs) (auto split: if_splits)

lemma same_key_same_col:
  "distinct (map propertyKey xs) \<Longrightarrow> a \<in> set xs \<Longrightarrow> b \<in> set xs \<Longrightarrow>
     propertyKey a = propertyKey b \<Longrightarrow> a = b"
  by (meson distinct_map inj_onD)

lemma upsert_update_ok:
  assumes ok: "columnsOk xs"
    and i: "i < length xs" "propertyKey (xs ! i) = key"
    and np: "flagSet (primary opts) \<longrightarrow>
               (\<forall>c \<in> set xs. \<not> (flagSet (primary (options c)) \<and> propertyKey c \<noteq> key))"
  shows "columnsOk (xs[i := \<lparr>propertyKey = key, options = spread (options (xs ! i)) opts\<rparr>])"
proof -
  let ?col = "\<lparr>propertyKey = key, options = spread (options (xs ! i)) opts\<rparr>"
  from ok have d: "distinct (map propertyKey xs)"
    and u: "\<forall>a \<in> set xs. \<forall>b \<in> set xs. isPrimary a \<longrightarrow> isPrimary b \<longrightarrow> a = b"
    by (simp_all add: columnsOk_iff)
  have keys: "map propertyKey (xs[i := ?col]) = map propertyKey xs"
    using i by (simp add: map_update list_update_same_conv)
  have s: "set (xs[i := ?col]) = insert ?col (set xs - {xs ! i})"
    using d i by (simp add: set_update_distinct distinct_keys_distinct)
  have other: "\<And>b. b \<in> set xs - {xs ! i} \<Longrightarrow> propertyKey b \<noteq> key"
    using d i same_key_same_col [of xs _ "xs ! i"] by (metis DiffD1 DiffD2 insertI1 nth_mem)
  have colp: "isPrimary ?col \<Longrightarrow> flagSet (primary opts) \<or> isPrimary (xs ! i)"
    by (auto simp: isPrimary_def spread_def flagSet_def split: if_splits)
  have "\<And>b. b \<in> set xs - {xs ! i} \<Longrightarrow> isPrimary ?col \<Longrightarrow> \<not> isPrimary b"
  proof
    fix b assume b: "b \<in> set xs - {xs ! i}" and c: "isPrimary ?col" and pb: "isPrimary b"
    from colp [OF c] show False
    proof
      assume "flagSet (primary opts)"
      with np b pb other [OF b] show False by (auto simp: isPrimary_def)
    next
      assume "isPrimary (xs ! i)"
      with u pb b i show False by (metis DiffD1 DiffD2 insertI1 nth_mem)
    qed
  qed
  with u have "\<forall>a \<in> set (xs[i := ?col]). \<forall>b \<in> set (xs[i := ?col]).
                 isPrimary a \<longrightarrow> isPrimary b \<longrightarrow> a = b"
    unfolding s by (metis DiffD1 insertE)
  with d keys show ?thesis by (simp add: columnsOk_iff)
qed

lemma upsert_append_ok:
  assumes ok: "columnsOk xs"
    and nk: "\<forall>c \<in> set xs. propertyKey c \<noteq> key"
    and np: "flagSet (primary opts) \<longrightarrow>
               (\<forall>c \<in> set xs. \<not> (flagSet (primary (options c)) \<and> propertyKey c \<noteq> key))"
  shows "columnsOk (xs @ [\<lparr>propertyKey = key, options = spread noOptions opts\<rparr>])"
proof -
  let ?col = "\<lparr>propertyKey = key, options = spread noOptions opts\<rparr>"
  from ok have d: "distinct (map propertyKey xs)"
    and u: "\<forall>a \<in> set xs. \<forall>b \<in> set xs. isPrimary a \<longrightarrow> isPrimary b \<longrightarrow> a = b"
    by (simp_all add: columnsOk_iff)
  have colp: "isPrimary ?col \<Longrightarrow> flagSet (primary opts)"
    by (auto simp: isPrimary_def spread_def noOptions_def flagSet_def split: if_splits)
  have "\<And>b. b \<in> set xs \<Longrightarrow> isPrimary ?col \<Longrightarrow> \<not> isPrimary b"
    using colp np nk by (auto simp: isPrimary_def)
  with u have "\<forall>a \<in> set (xs @ [?col]). \<forall>b \<in> set (xs @ [?col]).
                 isPrimary a \<longrightarrow> isPrimary b \<longrightarrow> a = b"
    by auto
  moreover from d nk have "distinct (map propertyKey (xs @ [?col]))"
    by auto
  ultimately show ?thesis by (simp add: columnsOk_iff)
qed

lemma ensureEntityMeta_ok:
  assumes "registryOk r" and "ensureEntityMeta tgt name r = Inr (meta, r')"
  shows "registryOk r' \<and> byCtor r' tgt = Some meta \<and> columnsOk (columns meta)"
proof (cases "byCtor r tgt")
  case None
  with assms(2) have m: "meta = \<lparr>target = tgt,
        tableName = (case name of None \<Rightarrow> ctorName tgt | Some n \<Rightarrow> n), columns = []\<rparr>"
    and r': "byCtor r' = (byCtor r)(tgt \<mapsto> meta)"
    by (auto simp: ensureEntityMeta_def Let_def split: if_splits)
  have "columnsOk (columns meta)"
    by (simp add: m columnsOk_def atMostOnePrimary_def)
  with assms(1) r' show ?thesis
    by (auto simp: registryOk_def)
next
  case (Some old)
  with assms(2) have c: "columns meta = columns old" and r': "byCtor r' tgt = Some meta"
    and o: "\<forall>c. c \<noteq> tgt \<longrightarrow> byCtor r' c = byCtor r c"
    by (auto simp: ensureEntityMeta_def Let_def split: if_splits option.splits)
  from assms(1) Some c have "columnsOk (columns meta)"
    by (simp add: registryOk_def)
  with assms(1) r' o show ?thesis
    by (metis option.inject registryOk_def)
qed

lemma addEntity_ok: "registryOk r \<Longrightarrow> registryOk (snd (addEntity tgt name r))"
  using ensureEntityMeta_ok [of r tgt name]
  by (auto simp: addEntity_def split: sum.splits)

lemma registryOk_update:
  "registryOk r \<Longrightarrow> columnsOk (columns m) \<Longrightarrow> registryOk (r\<lparr>byCtor := (byCtor r)(c \<mapsto> m)\<rparr>)"
  by (simp add: registryOk_def)

lemma addColumn_ok:
  assumes "registryOk r"
  shows "registryOk (snd (addColumn tgt key opts r))"
proof (cases "sealed r \<or> tgt = None")
  case True
  with assms show ?thesis by (auto simp: addColumn_def)
next
  case False
  then obtain ctor where tgt: "tgt = Some ctor" and ns: "\<not> sealed r" by auto
  show ?thesis
  proof (cases "ensureEntityMeta ctor None r")
    case (Inl e)
    with assms tgt ns show ?thesis by (simp add: addColumn_def)
  next
    case (Inr p)
    obtain meta r1 where p: "p = (meta, r1)" by (cases p)
    from ensureEntityMeta_ok [OF assms Inr [unfolded p]]
    have ok1: "registryOk r1" and cok: "columnsOk (columns meta)" by simp_all
    let ?ep = "find (\<lambda>c. flagSet (primary (options c)) \<and> propertyKey c \<noteq> key) (columns meta)"
    show ?thesis
    proof (cases "(flagSet (autoIncrement opts) \<and> \<not> flagSet (primary opts)) \<or>
                  (flagSet (primary opts) \<and> ?ep \<noteq> None)")
      case True
      with tgt ns Inr p ok1 show ?thesis
        by (auto simp: addColumn_def Let_def)
    next
      case False
      then have np: "flagSet (primary opts) \<longrightarrow>
               (\<forall>c \<in> set (columns meta). \<not> (flagSet (primary (options c)) \<and> propertyKey c \<noteq> key))"
        by (auto simp: find_None_iff)
      show ?thesis
      proof (cases "findIndex (\<lambda>c. propertyKey c = key) (columns meta)")
        case None
        from findIndex_None [OF this] have "\<forall>c \<in> set (columns meta). propertyKey c \<noteq> key"
          by simp
        from upsert_append_ok [OF cok this np]
        have "registryOk (r1\<lparr>byCtor := (byCtor r1)
               (ctor \<mapsto> meta\<lparr>columns := columns meta @
                   [\<lparr>propertyKey = key, options = spread noOptions opts\<rparr>]\<rparr>)\<rparr>)"
          using ok1 by (simp add: registryOk_update)
        with tgt ns Inr p False None show ?thesis
          by (auto simp: addColumn_def Let_def)
      next
        case (Some idx)
        from findIndex_Some [OF this]
        have "idx < length (columns meta)" "propertyKey (columns meta ! idx) = key" by simp_all
        from upsert_update_ok [OF cok this np]
        have "registryOk (r1\<lparr>byCtor := (byCtor r1)
               (ctor \<mapsto> meta\<lparr>columns := (columns meta)
                   [idx := \<lparr>propertyKey = key,
                            options = spread (options (columns meta ! idx)) opts\<rparr>]\<rparr>)\<rparr>)"
          using ok1 by (simp add: registryOk_update)
        with tgt ns Inr p False Some show ?thesis
          by (auto simp: addColumn_def Let_def)
      qed
    qed
  qed
qed

lemma applyOp_ok: "registryOk r \<Longrightarrow> registryOk (applyOp op r)"
proof (cases op)
  case (AddEntity tgt name)
  assume "registryOk r"
  with AddEntity show ?thesis by (simp add: addEntity_ok)
next
  case (AddColumn tgt key opts)
  assume "registryOk r"
  with AddColumn show ?thesis by (simp add: addColumn_ok)
next
  case SealRegistry
  assume "registryOk r"
  with SealRegistry show ?thesis by (simp add: sealRegistry_def registryOk_def)
next
  case ResetRegistry
  then show ?thesis by (simp add: resetRegistry_def registryOk_def)
qed

lemma fold_applyOp_ok: "registryOk r \<Longrightarrow> registryOk (fold applyOp ops r)"
  by (induction ops arbitrary: r) (simp_all add: applyOp_ok)

lemma runOps_ok: "registryOk (runOps ops)"
  unfolding runOps_def
  by (rule fold_applyOp_ok) (simp add: registryOk_def emptyRegistry_def)

subsection \<open>Resolution of the inherited columns\<close>

lemma set_update_subset: "set (AList.update k v al) \<subseteq> insert (k, v) (set al)"
  by (induction al) auto

lemma update_keyed: "keyed M \<Longrightarrow> keyed (AList.update (propertyKey c) c M)"
  using set_update_subset [of "propertyKey c" c M]
  by (auto simp: keyed_def distinct_update)

lemma setColumns_keyed: "keyed M \<Longrightarrow> keyed (setColumns cols M)"
  unfolding setColumns_def
  by (induction cols arbitrary: M) (simp_all add: update_keyed)

lemma fold_merge_keyed:
  "keyed M \<Longrightarrow>
   keyed (fold (\<lambda>c m. case byCtor r c of None \<Rightarrow> m | Some em \<Rightarrow> setColumns (columns em) m) chain M)"
  by (induction chain arbitrary: M) (auto simp: setColumns_keyed split: option.splits)

lemma mergeColumns_keyed: "keyed (mergeColumns r chain)"
  unfolding mergeColumns_def
  by (rule fold_merge_keyed) (simp add: keyed_def)

lemma keyed_keys: "keyed M \<Longrightarrow> map propertyKey (map snd M) = map fst M"
  by (auto simp: keyed_def)

lemma mergedColumns_distinct: "distinct (map propertyKey (mergedColumns r meta))"
proof -
  have k: "keyed (mergeColumns r (chainOf (target meta) []))"
    by (rule mergeColumns_keyed)
  then have "distinct (map fst (mergeColumns r (chainOf (target meta) [])))"
    by (simp add: keyed_def)
  with keyed_keys [OF k] show ?thesis
    by (simp only: mergedColumns_def)
qed

lemma setElements_length: "length (setElements xs) = card (set xs)"
  by (simp add: setElements_def length_remdups_card_conv)

lemma resolveEntity_cases:
  "resolveEntity r meta =
     (if 1 < card (propertyKey ` {col \<in> set (mergedColumns r meta). isPrimary col})
      then Inl (Error (''Multiple primary columns across inheritance for table '' @ dq @
                    tableName meta @ dq @ '': '' @
                    join '', '' (setElements (map propertyKey
                       (filter isPrimary (mergedColumns r meta))))))
      else Inr (mergedColumns r meta))"
proof -
  have "isPrimary = (\<lambda>c. flagSet (primary (options c)))"
    by (simp add: isPrimary_def fun_eq_iff)
  then show ?thesis
    by (simp add: resolveEntity_def mergedColumns_def Let_def setElements_length)
qed

lemma primaries_card:
  "length (filter isPrimary (mergedColumns r meta)) =
   card (propertyKey ` {col \<in> set (mergedColumns r meta). isPrimary col})"
proof -
  have "distinct (map propertyKey (filter isPrimary (mergedColumns r meta)))"
    using mergedColumns_distinct [of r meta] by (simp add: distinct_map_filter)
  then have "card (set (map propertyKey (filter isPrimary (mergedColumns r meta)))) =
             length (map propertyKey (filter isPrimary (mergedColumns r meta)))"
    by (rule distinct_card)
  then show ?thesis by simp
qed

lemma resolveEntity_ok:
  "resolveEntity r meta = Inr cols \<Longrightarrow> cols = mergedColumns r meta \<and> atMostOnePrimary cols"
  using primaries_card [of r meta]
  by (auto simp: resolveEntity_cases atMostOnePrimary_def split: if_splits)

lemma resolveEntity_fails_iff:
  "(\<exists>e. resolveEntity r meta = Inl e) \<longleftrightarrow>
     1 < card (propertyKey ` {col \<in> set (mergedColumns r meta). isPrimary col})"
  by (simp add: resolveEntity_cases)

lemma addColumn_second_primary:
  assumes "\<not> sealed r" "byCtor r c = Some m" "flagSet (primary opts)"
    and "\<exists>col \<in> set (columns m). isPrimary col \<and> propertyKey col \<noteq> key"
  shows "\<exists>e. addColumn (Some c) key opts r = (Some e, r)"
proof -
  from assms(2) have e: "ensureEntityMeta c None r = Inr (m, r)"
    by (simp add: ensureEntityMeta_def)
  from assms(4) have "find (\<lambda>col. flagSet (primary (options col)) \<and> propertyKey col \<noteq> key)
                        (columns m) \<noteq> None"
    by (auto simp: find_None_iff isPrimary_def)
  with assms(1,3) e show ?thesis
    by (simp add: addColumn_def Let_def)
qed

text \<open>
  Claim C7.  Every entity descriptor carries at most one primary column at all times:
  after any sequence of calls from the empty registry (rejected ones included) no
  descriptor has two primary columns; \<^verbatim>\<open>addColumn\<close> fails, leaving the registry as it
  was, when a different property of the descriptor is already primary and the
  registration also requests primary; \<^verbatim>\<open>resolveEntity\<close> fails exactly when the
  inheritance-merged column set has more than one distinct primary property key, and a
  resolved entity has at most one primary column.
\<close>

theorem at_most_one_primary_column:
  "(\<forall>c m. byCtor (runOps ops) c = Some m \<longrightarrow> atMostOnePrimary (columns m))
   \<and> (\<not> sealed r \<and> byCtor r c = Some m \<and> flagSet (primary opts) \<and>
        (\<exists>col \<in> set (columns m). isPrimary col \<and> propertyKey col \<noteq> key) \<longrightarrow>
        (\<exists>e. addColumn (Some c) key opts r = (Some e, r)))
   \<and> ((\<exists>e. resolveEntity r meta = Inl e) \<longleftrightarrow>
        1 < card (propertyKey ` {col \<in> set (mergedColumns r meta). isPrimary col}))
   \<and> (resolveEntity r meta = Inr cols \<longrightarrow> cols = mergedColumns r meta \<and> atMostOnePrimary cols)"
proof -
  have "\<forall>c m. byCtor (runOps ops) c = Some m \<longrightarrow> atMostOnePrimary (columns m)"
    using runOps_ok [of ops] by (simp add: registryOk_def columnsOk_def)
  with addColumn_second_primary [of r c m opts key] resolveEntity_fails_iff [of r meta]
    resolveEntity_ok [of r meta cols]
  show ?thesis by blast
qed

theorem at_most_one_primary_column_witness:
  "addColumn (Some (Ctor 7 ''User'' None)) ''email'' \<lparr>primary = Flag True, autoIncrement = Absent\<rparr>
      (runOps [AddColumn (Some (Ctor 7 ''User'' None)) ''id''
                 \<lparr>primary = Flag True, autoIncrement = Flag True\<rparr>]) =
     (Some (Error ''Multiple primary columns not supported (table: User, columns: id, email)''),
      runOps [AddColumn (Some (Ctor 7 ''User'' None)) ''id''
                 \<lparr>primary = Flag True, autoIncrement = Flag True\<rparr>])
   \<and> resolveEntity
        (runOps [AddColumn (Some (Ctor 7 ''User'' None)) ''id''
                   \<lparr>primary = Flag True, autoIncrement = Flag True\<rparr>])
        \<lparr>target = Ctor 7 ''User'' None, tableName = ''User'',
         columns = [\<lparr>propertyKey = ''id'',
                     options = \<lparr>primary = Flag True, autoIncrement = Flag True\<rparr>\<rparr>]\<rparr> =
      Inr [\<lparr>propertyKey = ''id'', options = \<lparr>primary = Flag True, autoIncrement = Flag True\<rparr>\<rparr>]
   \<and> atMostOnePrimary
        [\<lparr>propertyKey = ''id'', options = \<lparr>primary = Flag True, autoIncrement = Flag True\<rparr>\<rparr>]"
proof -
  let ?A = "Ctor 7 ''User'' None"
  let ?idc = "\<lparr>propertyKey = ''id'', options = \<lparr>primary = Flag True, autoIncrement = Flag True\<rparr>\<rparr>"
  let ?m = "\<lparr>target = ?A, tableName = ''User'', columns = [?idc]\<rparr>"
  let ?r = "runOps [AddColumn (Some ?A) ''id'' \<lparr>primary = Flag True, autoIncrement = Flag True\<rparr>]"
  let ?opts = "\<lparr>primary = Flag True, autoIncrement = Absent\<rparr>"
  have r: "?r = \<lparr>byCtor = (\<lambda>c. None)(?A \<mapsto> ?m), byTable = [(''User'', ?A)], sealed = False\<rparr>"
    by (simp add: runOps_def addColumn_def ensureEntityMeta_def emptyRegistry_def flagSet_def
        spread_def noOptions_def Let_def)
  have 1: "\<not> sealed ?r" "byCtor ?r ?A = Some ?m" "flagSet (primary ?opts)"
    "\<exists>col \<in> set (columns ?m). isPrimary col \<and> propertyKey col \<noteq> ''email''"
    by (simp_all add: r flagSet_def isPrimary_def)
  have res: "resolveEntity ?r ?m = Inr [?idc]"
    by (simp add: r resolveEntity_def mergeColumns_def setColumns_def setElements_def flagSet_def
        Let_def)
  from at_most_one_primary_column [of "[]" ?r ?A ?m ?opts "''email''" ?m "[?idc]"] 1 res
  have "(\<exists>e. addColumn (Some ?A) ''email'' ?opts ?r = (Some e, ?r)) \<and> atMostOnePrimary [?idc]"
    by blast
  moreover have "fst (addColumn (Some ?A) ''email'' ?opts ?r) =
     Some (Error ''Multiple primary columns not supported (table: User, columns: id, email)'')"
    by (simp add: r addColumn_def ensureEntityMeta_def flagSet_def Let_def)
  ultimately show ?thesis using res by auto
qed

section \<open>Properties of the schema builder\<close>

subsection \<open>Sorting with a comparator\<close>

lemma set_insertBy: "set (insertBy cmp x ys) = insert x (set ys)"
  by (induction ys) auto

lemma set_sortBy: "set (sortBy cmp xs) = set xs"
  unfolding sortBy_def by (induction xs) (simp_all add: set_insertBy)

lemma distinct_insertBy: "distinct (insertBy cmp x ys) \<longleftrightarrow> x \<notin> set ys \<and> distinct ys"
  by (induction ys) (auto simp: set_insertBy)

lemma distinct_sortBy: "distinct (sortBy cmp xs) = distinct xs"
  unfolding sortBy_def
  by (induction xs) (simp_all add: distinct_insertBy set_sortBy [unfolded sortBy_def])

lemma sorted_insertBy:
  assumes tot: "\<forall>a \<in> A. \<forall>b \<in> A. cmp a b \<le> 0 \<or> cmp b a \<le> 0"
    and tr: "\<forall>a \<in> A. \<forall>b \<in> A. \<forall>c \<in> A. cmp a b \<le> 0 \<and> cmp b c \<le> 0 \<longrightarrow> cmp a c \<le> 0"
  shows "x \<in> A \<Longrightarrow> set ys \<subseteq> A \<Longrightarrow> sorted_wrt (\<lambda>a b. cmp a b \<le> 0) ys \<Longrightarrow>
         sorted_wrt (\<lambda>a b. cmp a b \<le> 0) (insertBy cmp x ys)"
proof (induction ys)
  case Nil
  then show ?case by simp
next
  case (Cons y ys)
  show ?case
  proof (cases "cmp x y \<le> 0")
    case True
    have "\<forall>z \<in> set ys. cmp x z \<le> 0"
    proof
      fix z assume z: "z \<in> set ys"
      with Cons.prems have "cmp y z \<le> 0" by simp
      with True tr Cons.prems z show "cmp x z \<le> 0" by (meson list.set_intros subsetD)
    qed
    with True Cons.prems show ?thesis by simp
  next
    case False
    with tot Cons.prems have "cmp y x \<le> 0" by (meson list.set_intros(1) subsetD)
    with False Cons show ?thesis by (auto simp: set_insertBy)
  qed
qed

lemma sorted_sortBy:
  assumes tot: "\<forall>a \<in> A. \<forall>b \<in> A. cmp a b \<le> 0 \<or> cmp b a \<le> 0"
    and tr: "\<forall>a \<in> A. \<forall>b \<in> A. \<forall>c \<in> A. cmp a b \<le> 0 \<and> cmp b c \<le> 0 \<longrightarrow> cmp a c \<le> 0"
  shows "set xs \<subseteq> A \<Longrightarrow> sorted_wrt (\<lambda>a b. cmp a b \<le> 0) (sortBy cmp xs)"
proof (induction xs)
  case Nil
  then show ?case by (simp add: sortBy_def)
next
  case (Cons x xs)
  then have "sorted_wrt (\<lambda>a b. cmp a b \<le> 0) (sortBy cmp xs)" by simp
  from sorted_insertBy [OF tot tr _ _ this, of x] Cons.prems
  show ?case by (simp add: sortBy_def set_sortBy [unfolded sortBy_def])
qed

lemma sorted_wrt_unique:
  assumes anti: "\<forall>a \<in> A. \<forall>b \<in> A. R a b \<and> R b a \<longrightarrow> a = b"
  shows "set xs \<subseteq> A \<Longrightarrow> sorted_wrt R xs \<Longrightarrow> sorted_wrt R ys \<Longrightarrow> distinct xs \<Longrightarrow>
         distinct ys \<Longrightarrow> set xs = set ys \<Longrightarrow> xs = ys"
proof (induction xs arbitrary: ys)
  case Nil
  then show ?case by simp
next
  case (Cons x xs)
  then obtain y ys' where ys: "ys = y # ys'" by (cases ys) auto
  have xy: "x = y"
  proof (rule ccontr)
    assume ne: "x \<noteq> y"
    with Cons.prems ys have "x \<in> set ys'" "y \<in> set xs" by auto
    with Cons.prems ys have "R y x" "R x y" by auto
    with anti Cons.prems ys ne show False by (meson list.set_intros(1) subsetD \<open>y \<in> set xs\<close> list.set_intros(2))
  qed
  with Cons.prems ys have "set xs = set ys'" by auto
  with Cons.IH [of ys'] Cons.prems ys xy show ?case by simp
qed

lemma sortBy_unique:
  assumes so: "strictOrderOn lc (f ` set xs)"
    and inj: "inj_on f (set xs)"
    and d: "distinct xs" "distinct ys" and s: "set xs = set ys"
  shows "sortBy (\<lambda>a b. lc (f a) (f b)) xs = sortBy (\<lambda>a b. lc (f a) (f b)) ys"
proof -
  let ?cmp = "\<lambda>a b. lc (f a) (f b)"
  let ?A = "set xs"
  have tot: "\<forall>a \<in> ?A. \<forall>b \<in> ?A. ?cmp a b \<le> 0 \<or> ?cmp b a \<le> 0"
  proof (intro ballI)
    fix a b assume "a \<in> ?A" "b \<in> ?A"
    then have "f a \<in> f ` ?A" "f b \<in> f ` ?A" by simp_all
    with so show "?cmp a b \<le> 0 \<or> ?cmp b a \<le> 0"
      unfolding strictOrderOn_def by blast
  qed
  have tr: "\<forall>a \<in> ?A. \<forall>b \<in> ?A. \<forall>c \<in> ?A. ?cmp a b \<le> 0 \<and> ?cmp b c \<le> 0 \<longrightarrow> ?cmp a c \<le> 0"
  proof (intro ballI)
    fix a b c assume "a \<in> ?A" "b \<in> ?A" "c \<in> ?A"
    then have "f a \<in> f ` ?A" "f b \<in> f ` ?A" "f c \<in> f ` ?A" by simp_all
    with so show "?cmp a b \<le> 0 \<and> ?cmp b c \<le> 0 \<longrightarrow> ?cmp a c \<le> 0"
      unfolding strictOrderOn_def by blast
  qed
  have anti: "\<forall>a \<in> ?A. \<forall>b \<in> ?A. ?cmp a b \<le> 0 \<and> ?cmp b a \<le> 0 \<longrightarrow> a = b"
  proof (intro ballI impI)
    fix a b assume ab: "a \<in> ?A" "b \<in> ?A" and c: "?cmp a b \<le> 0 \<and> ?cmp b a \<le> 0"
    then have "f a \<in> f ` ?A" "f b \<in> f ` ?A" by simp_all
    with so c have "f a = f b"
      unfolding strictOrderOn_def by blast
    with inj ab show "a = b" by (simp add: inj_on_def)
  qed
  have 1: "sorted_wrt (\<lambda>a b. ?cmp a b \<le> 0) (sortBy ?cmp xs)"
    by (rule sorted_sortBy [OF tot tr]) simp
  have 2: "sorted_wrt (\<lambda>a b. ?cmp a b \<le> 0) (sortBy ?cmp ys)"
    by (rule sorted_sortBy [OF tot tr]) (simp add: s)
  show ?thesis
    by (rule sorted_wrt_unique [OF anti _ 1 2]) (simp_all add: set_sortBy distinct_sortBy d s)
qed

lemma insertBy_map:
  "\<forall>y \<in> set ys. cmp (g x) (g y) = lc x y \<Longrightarrow>
     insertBy cmp (g x) (map g ys) = map g (insertBy lc x ys)"
  by (induction ys) auto

lemma sortBy_map:
  "\<forall>x \<in> set xs. \<forall>y \<in> set xs. cmp (g x) (g y) = lc x y \<Longrightarrow>
     sortBy cmp (map g xs) = map g (sortBy lc xs)"
proof (induction xs)
  case Nil
  then show ?case by (simp add: sortBy_def)
next
  case (Cons x xs)
  then have ih: "sortBy cmp (map g xs) = map g (sortBy lc xs)" by simp
  from Cons.prems have "\<forall>y \<in> set (sortBy lc xs). cmp (g x) (g y) = lc x y"
    by (simp add: set_sortBy)
  from insertBy_map [of "sortBy lc xs" cmp g x lc, OF this] ih show ?case
    by (simp add: sortBy_def)
qed

subsection \<open>Registries that hold the same entities give the same schema\<close>

lemma setColumns_map_of:
  "map_of (setColumns cols M) = map_of M ++ map_of (rev (map (\<lambda>c. (propertyKey c, c)) cols))"
  unfolding setColumns_def
proof (induction cols arbitrary: M)
  case Nil
  then show ?case by simp
next
  case (Cons c cols)
  have "map_of (fold (\<lambda>c. AList.update (propertyKey c) c) cols (AList.update (propertyKey c) c M)) =
        (map_of M)(propertyKey c \<mapsto> c) ++ map_of (rev (map (\<lambda>c. (propertyKey c, c)) cols))"
    by (simp only: Cons.IH update_conv')
  also have "\<dots> = map_of M ++ map_of (rev (map (\<lambda>c. (propertyKey c, c)) (c # cols)))"
    by (simp add: map_add_upd_left fun_eq_iff map_add_def split: option.splits)
  finally show ?case by simp
qed

lemma setColumns_same:
  assumes "set cols1 = set cols2"
    and "distinct (map propertyKey cols1)" "distinct (map propertyKey cols2)"
    and "map_of M1 = map_of M2"
  shows "map_of (setColumns cols1 M1) = map_of (setColumns cols2 M2)"
proof -
  let ?kv = "\<lambda>c. (propertyKey c, c)"
  have "map_of (rev (map ?kv cols1)) = map_of (rev (map ?kv cols2))"
  proof (rule map_of_inject_set [THEN iffD2])
    show "distinct (map fst (rev (map ?kv cols1)))"
      using assms(2) by (simp add: rev_map [symmetric] comp_def)
    show "distinct (map fst (rev (map ?kv cols2)))"
      using assms(3) by (simp add: rev_map [symmetric] comp_def)
    show "set (rev (map ?kv cols1)) = set (rev (map ?kv cols2))"
      using assms(1) by simp
  qed
  with assms(4) show ?thesis by (simp add: setColumns_map_of)
qed

lemma fold_merge_same:
  assumes se: "\<forall>c. rel_option sameColumns (byCtor r1 c) (byCtor r2 c)"
    and wf1: "\<forall>c m. byCtor r1 c = Some m \<longrightarrow> distinct (map propertyKey (columns m))"
    and wf2: "\<forall>c m. byCtor r2 c = Some m \<longrightarrow> distinct (map propertyKey (columns m))"
  shows "map_of M1 = map_of M2 \<Longrightarrow>
     map_of (fold (\<lambda>c m. case byCtor r1 c of None \<Rightarrow> m | Some em \<Rightarrow> setColumns (columns em) m) chain M1) =
     map_of (fold (\<lambda>c m. case byCtor r2 c of None \<Rightarrow> m | Some em \<Rightarrow> setColumns (columns em) m) chain M2)"
proof (induction chain arbitrary: M1 M2)
  case Nil
  then show ?case by simp
next
  case (Cons c chain)
  let ?s1 = "case byCtor r1 c of None \<Rightarrow> M1 | Some em \<Rightarrow> setColumns (columns em) M1"
  let ?s2 = "case byCtor r2 c of None \<Rightarrow> M2 | Some em \<Rightarrow> setColumns (columns em) M2"
  have "map_of ?s1 = map_of ?s2"
  proof (cases "byCtor r1 c")
    case None
    with se [rule_format, of c] have "byCtor r2 c = None" by (cases "byCtor r2 c") auto
    with None Cons.prems show ?thesis by simp
  next
    case (Some m1)
    with se [rule_format, of c] obtain m2 where m2: "byCtor r2 c = Some m2" "sameColumns m1 m2"
      by (cases "byCtor r2 c") auto
    from setColumns_same [of "columns m1" "columns m2" M1 M2] m2 Some wf1 wf2 Cons.prems
    show ?thesis by (simp add: sameColumns_def)
  qed
  from Cons.IH [OF this] show ?case by simp
qed

lemma mergedColumns_same:
  assumes "sameEntities r1 r2" "registryOk r1" "registryOk r2" "target m1 = target m2"
  shows "set (mergedColumns r1 m1) = set (mergedColumns r2 m2)"
proof -
  let ?M1 = "mergeColumns r1 (chainOf (target m1) [])"
  let ?M2 = "mergeColumns r2 (chainOf (target m2) [])"
  have "map_of ?M1 = map_of ?M2"
    unfolding mergeColumns_def assms(4)
    by (rule fold_merge_same)
      (use assms in \<open>simp_all add: sameEntities_def registryOk_def columnsOk_def\<close>)
  moreover have "distinct (map fst ?M1)" "distinct (map fst ?M2)"
    using mergeColumns_keyed [of r1] mergeColumns_keyed [of r2] by (simp_all add: keyed_def)
  ultimately have "set ?M1 = set ?M2"
    by (simp add: map_of_inject_set)
  then show ?thesis by (simp add: mergedColumns_def)
qed

lemma find_unique:
  assumes "set xs = set ys"
    and "\<forall>a \<in> set xs. \<forall>b \<in> set xs. P a \<longrightarrow> P b \<longrightarrow> a = b"
  shows "find P xs = find P ys"
proof (cases "find P xs")
  case None
  then have "\<forall>x \<in> set xs. \<not> P x" by (simp add: find_None_iff)
  with assms(1) have "find P ys = None" by (simp add: find_None_iff)
  with None show ?thesis by simp
next
  case (Some a)
  then have a: "a \<in> set xs" "P a"
    by (auto simp: find_Some_iff)
  with assms(1) have "find P ys \<noteq> None" by (auto simp: find_None_iff)
  then obtain b where b: "find P ys = Some b" by auto
  then have "b \<in> set ys" "P b" by (auto simp: find_Some_iff)
  with assms a have "a = b" by auto
  with Some b show ?thesis by simp
qed

lemma buildTableSchema_same:
  assumes se: "sameEntities r1 r2" and wf: "registryOk r1" "registryOk r2"
    and t: "target m1 = target m2"
    and ok: "buildTableSchema r1 m1 = Inr x"
  shows "buildTableSchema r2 m2 = Inr x"
proof -
  let ?C1 = "mergedColumns r1 m1" and ?C2 = "mergedColumns r2 m2"
  have s: "set ?C1 = set ?C2" by (rule mergedColumns_same [OF se wf t])
  have d1: "distinct (map propertyKey ?C1)" and d2: "distinct (map propertyKey ?C2)"
    by (rule mergedColumns_distinct)+
  from ok have r1: "resolveEntity r1 m1 = Inr ?C1"
    by (auto simp: buildTableSchema_def resolveEntity_cases split: if_splits sum.splits)
  then have c1: "\<not> 1 < card (propertyKey ` {col \<in> set ?C1. isPrimary col})"
    by (auto simp: resolveEntity_cases split: if_splits)
  with s have r2: "resolveEntity r2 m2 = Inr ?C2"
    by (simp add: resolveEntity_cases)
  from resolveEntity_ok [OF r1] have "atMostOnePrimary ?C1" by simp
  with d1 have u: "\<forall>a \<in> set ?C1. \<forall>b \<in> set ?C1. isPrimary a \<longrightarrow> isPrimary b \<longrightarrow> a = b"
    using columnsOk_iff [of ?C1] by (simp add: columnsOk_def)
  have f: "find isPrimary ?C1 = find isPrimary ?C2"
    by (rule find_unique [OF s u])
  have o: "sort (map propertyKey (filter (\<lambda>c. \<not> isPrimary c) ?C1)) =
           sort (map propertyKey (filter (\<lambda>c. \<not> isPrimary c) ?C2))"
  proof (rule sorted_distinct_set_unique)
    show "distinct (sort (map propertyKey (filter (\<lambda>c. \<not> isPrimary c) ?C1)))"
      using d1 by (simp add: distinct_map_filter)
    show "distinct (sort (map propertyKey (filter (\<lambda>c. \<not> isPrimary c) ?C2)))"
      using d2 by (simp add: distinct_map_filter)
    show "set (sort (map propertyKey (filter (\<lambda>c. \<not> isPrimary c) ?C1))) =
          set (sort (map propertyKey (filter (\<lambda>c. \<not> isPrimary c) ?C2)))"
      using s by simp
  qed simp_all
  have ip: "isPrimary = (\<lambda>c. flagSet (primary (options c)))"
    by (simp add: isPrimary_def fun_eq_iff)
  have "buildTableSchema r2 m2 = buildTableSchema r1 m1"
    using f o unfolding buildTableSchema_def r1 r2 ip by (simp add: Let_def)
  with ok show ?thesis by simp
qed

lemma map_filter_all:
  "\<forall>x \<in> set xs. \<exists>y. f x = Some y \<Longrightarrow>
     List.map_filter f xs = map (\<lambda>x. case f x of Some y \<Rightarrow> y | None \<Rightarrow> d x) xs"
  by (induction xs) (auto simp: List.map_filter_simps)

lemma getAllEntities_wf:
  "registryWf r \<Longrightarrow> getAllEntities r = map (metaOf r) (byTable r)"
proof -
  assume wf: "registryWf r"
  then have "\<forall>e \<in> set (byTable r). \<exists>m. byCtor r (snd e) = Some m"
    by (auto simp: registryWf_def)
  from map_filter_all [of "byTable r" "\<lambda>e. byCtor r (snd e)"
      "\<lambda>e. \<lparr>target = snd e, tableName = fst e, columns = []\<rparr>", OF this]
  show ?thesis
    by (simp add: getAllEntities_def metaOf_def [abs_def])
qed

lemma metaOf_name: "registryWf r \<Longrightarrow> e \<in> set (byTable r) \<Longrightarrow> tableName (metaOf r e) = fst e"
  by (auto simp: registryWf_def metaOf_def split: option.splits)

lemma sorted_entities:
  assumes wf: "registryWf r"
  shows "sortBy (\<lambda>a b. lc (tableName a) (tableName b)) (getAllEntities r) =
         map (metaOf r) (sortBy (\<lambda>a b. lc (fst a) (fst b)) (byTable r))"
proof -
  have "\<forall>x \<in> set (byTable r). \<forall>y \<in> set (byTable r).
          lc (tableName (metaOf r x)) (tableName (metaOf r y)) = lc (fst x) (fst y)"
    using metaOf_name [OF wf] by simp
  from sortBy_map [of "byTable r" "\<lambda>a b. lc (tableName a) (tableName b)" "metaOf r"
      "\<lambda>a b. lc (fst a) (fst b)", OF this]
  show ?thesis by (simp add: getAllEntities_wf [OF wf])
qed

lemma metaOf_same:
  assumes se: "sameEntities r1 r2" and wf: "registryWf r1" "registryWf r2"
    and e: "e \<in> set (byTable r1)"
  shows "sameColumns (metaOf r1 e) (metaOf r2 e)"
proof -
  from se e have e2: "e \<in> set (byTable r2)" by (simp add: sameEntities_def)
  from wf(1) e obtain m1 where m1: "byCtor r1 (snd e) = Some m1" by (auto simp: registryWf_def)
  from wf(2) e2 obtain m2 where m2: "byCtor r2 (snd e) = Some m2" by (auto simp: registryWf_def)
  from se have "rel_option sameColumns (byCtor r1 (snd e)) (byCtor r2 (snd e))"
    by (simp add: sameEntities_def)
  with m1 m2 show ?thesis by (simp add: metaOf_def)
qed

lemma buildTables_same:
  assumes se: "sameEntities r1 r2" and ok: "registryOk r1" "registryOk r2"
    and wf: "registryWf r1" "registryWf r2"
  shows "set es \<subseteq> set (byTable r1) \<Longrightarrow>
         buildTables r1 (map (metaOf r1) es) acc = Inr s \<Longrightarrow>
         buildTables r2 (map (metaOf r2) es) acc = Inr s"
proof (induction es arbitrary: acc)
  case Nil
  then show ?case by simp
next
  case (Cons e es)
  from Cons.prems have e: "e \<in> set (byTable r1)" by simp
  from metaOf_same [OF se wf e]
  have t: "target (metaOf r1 e) = target (metaOf r2 e)"
    and n: "tableName (metaOf r1 e) = tableName (metaOf r2 e)"
    by (simp_all add: sameColumns_def)
  from Cons.prems obtain x where x: "buildTableSchema r1 (metaOf r1 e) = Inr x"
    by (cases "buildTableSchema r1 (metaOf r1 e)") auto
  from buildTableSchema_same [OF se ok t x]
  have x2: "buildTableSchema r2 (metaOf r2 e) = Inr x" .
  from Cons.prems x
  have "buildTables r1 (map (metaOf r1) es) (assignProp (tableName (metaOf r1 e)) x acc) = Inr s"
    by simp
  from Cons.IH [OF _ this] Cons.prems x2 n show ?case by simp
qed

lemma buildSchema_same:
  assumes se: "sameEntities r1 r2" and ok: "registryOk r1" "registryOk r2"
    and wf: "registryWf r1" "registryWf r2"
    and so: "strictOrderOn lc (fst ` set (byTable r1))"
    and b: "buildSchema lc r1 = Inr s"
  shows "buildSchema lc r2 = Inr s"
proof -
  let ?cmp = "\<lambda>a b. lc (fst a) (fst b)"
  from wf have d: "distinct (map fst (byTable r1))" "distinct (map fst (byTable r2))"
    by (simp_all add: registryWf_def)
  from se have s: "set (byTable r1) = set (byTable r2)" by (simp add: sameEntities_def)
  have eq: "sortBy ?cmp (byTable r1) = sortBy ?cmp (byTable r2)"
    by (rule sortBy_unique [OF so _ _ _ s])
      (use d in \<open>simp_all add: distinct_map\<close>)
  from b have "buildTables r1 (map (metaOf r1) (sortBy ?cmp (byTable r1))) [] = Inr s"
    by (simp add: buildSchema_def sorted_entities [OF wf(1)])
  from buildTables_same [OF se ok wf _ this]
  have "buildTables r2 (map (metaOf r2) (sortBy ?cmp (byTable r1))) [] = Inr s"
    by (simp add: set_sortBy)
  then show ?thesis
    by (simp add: buildSchema_def sorted_entities [OF wf(2)] eq)
qed

lemma set_objectEntries: "set (objectEntries obj) = set obj"
  by (auto simp: objectEntries_def)

lemma distinct_objectEntries: "distinct obj \<Longrightarrow> distinct (objectEntries obj)"
  by (auto simp: objectEntries_def)

lemma computeSignature_same:
  assumes s: "set s1 = set s2" and d: "distinct (map fst s1)" "distinct (map fst s2)"
    and so: "strictOrderOn lc (fst ` set s1)"
  shows "computeSignature lc s1 = computeSignature lc s2"
proof -
  from d have dd: "distinct s1" "distinct s2" and inj: "inj_on fst (set s1)"
    by (simp_all add: distinct_map)
  have "sortBy (\<lambda>a b. lc (fst a) (fst b)) (objectEntries s1) =
        sortBy (\<lambda>a b. lc (fst a) (fst b)) (objectEntries s2)"
    by (rule sortBy_unique)
      (use so inj dd s in \<open>simp_all add: set_objectEntries distinct_objectEntries\<close>)
  then show ?thesis by (simp add: computeSignature_def)
qed

lemma set_delete: "set (AList.delete k al) = {e \<in> set al. fst e \<noteq> k}"
  by (induction al) auto

subsection \<open>Registrations that do not commute\<close>

text \<open>
  Two registrations of the property \<open>id\<close> of one entity, one with \<^verbatim>\<open>autoIncrement\<close> and
  one without: the later registration overrides the earlier one, so the two orders give
  the table the schema strings \<^verbatim>\<open>id\<close> and \<^verbatim>\<open>++id\<close>.
\<close>

theorem schema_order_counterexample:
  "buildSchema (\<lambda>a b. int (length a) - int (length b))
     (runOps [AddColumn (Some (Ctor 7 ''User'' None)) ''id''
                \<lparr>primary = Flag True, autoIncrement = Flag True\<rparr>,
              AddColumn (Some (Ctor 7 ''User'' None)) ''id''
                \<lparr>primary = Flag True, autoIncrement = Flag False\<rparr>]) =
     Inr [(''User'', ''id'')]
   \<and> buildSchema (\<lambda>a b. int (length a) - int (length b))
     (runOps [AddColumn (Some (Ctor 7 ''User'' None)) ''id''
                \<lparr>primary = Flag True, autoIncrement = Flag False\<rparr>,
              AddColumn (Some (Ctor 7 ''User'' None)) ''id''
                \<lparr>primary = Flag True, autoIncrement = Flag True\<rparr>]) =
     Inr [(''User'', ''++id'')]"
  by (simp add: runOps_def addColumn_def ensureEntityMeta_def emptyRegistry_def flagSet_def
      spread_def noOptions_def Let_def buildSchema_def assignProp_def getAllEntities_def
      List.map_filter_simps sortBy_def buildTableSchema_def resolveEntity_def mergeColumns_def
      setColumns_def setElements_def)

subsection \<open>The registry reached by a set of accepted registrations\<close>

lemma applyOp_stepOp: "applyOp op r = snd (stepOp op r)"
  by (cases op) simp_all

lemma runChecked_fold: "runChecked ops r = Inr r' \<Longrightarrow> r' = fold applyOp ops r"
proof (induction ops arbitrary: r)
  case Nil
  then show ?case by simp
next
  case (Cons op ops)
  then show ?case
    by (cases "stepOp op r") (auto simp: applyOp_stepOp split: option.splits)
qed

lemma nameOk_unique: "nameOk S c n1 \<Longrightarrow> nameOk S c n2 \<Longrightarrow> n1 = n2"
  by (auto simp: nameOk_def)

lemma describes_mentioned: "describes S r \<Longrightarrow> (byCtor r c \<noteq> None) = mentioned S c"
  unfolding describes_def by blast

lemma describes_meta:
  "describes S r \<Longrightarrow> byCtor r c = Some m \<Longrightarrow>
     target m = c \<and> set (columns m) = colsFor S c \<and> nameOk S c (tableName m)"
  unfolding describes_def by blast

lemma describes_table:
  "describes S r \<Longrightarrow>
     set (byTable r) = {e. \<exists>m. byCtor r (snd e) = Some m \<and> tableName m = fst e} \<and>
     distinct (map fst (byTable r))"
  unfolding describes_def by blast

lemma describes_same:
  assumes "describes S r1" "describes S r2"
  shows "sameEntities r1 r2"
proof -
  have rel: "\<forall>c. rel_option sameColumns (byCtor r1 c) (byCtor r2 c)"
  proof
    fix c
    show "rel_option sameColumns (byCtor r1 c) (byCtor r2 c)"
    proof (cases "mentioned S c")
      case False
      with describes_mentioned [OF assms(1), of c] describes_mentioned [OF assms(2), of c]
      have "byCtor r1 c = None" "byCtor r2 c = None"
        by simp_all
      then show ?thesis by simp
    next
      case True
      with describes_mentioned [OF assms(1), of c] describes_mentioned [OF assms(2), of c]
      obtain m1 m2 where m: "byCtor r1 c = Some m1" "byCtor r2 c = Some m2"
        by auto
      with describes_meta [OF assms(1), of c m1] describes_meta [OF assms(2), of c m2]
      have "target m1 = c" "target m2 = c" "set (columns m1) = colsFor S c"
        "set (columns m2) = colsFor S c" "nameOk S c (tableName m1)" "nameOk S c (tableName m2)"
        by simp_all
      with m nameOk_unique [of S c "tableName m1" "tableName m2"] show ?thesis
        by (simp add: sameColumns_def)
    qed
  qed
  have "\<And>e :: string \<times> ctor. (\<exists>m. byCtor r1 (snd e) = Some m \<and> tableName m = fst e) \<longleftrightarrow>
             (\<exists>m. byCtor r2 (snd e) = Some m \<and> tableName m = fst e)"
  proof -
    fix e :: "string \<times> ctor"
    from rel have "rel_option sameColumns (byCtor r1 (snd e)) (byCtor r2 (snd e))" by simp
    then show "(\<exists>m. byCtor r1 (snd e) = Some m \<and> tableName m = fst e) \<longleftrightarrow>
             (\<exists>m. byCtor r2 (snd e) = Some m \<and> tableName m = fst e)"
      by (cases "byCtor r1 (snd e)"; cases "byCtor r2 (snd e)") (auto simp: sameColumns_def)
  qed
  with describes_table [OF assms(1)] describes_table [OF assms(2)]
  have "set (byTable r1) = set (byTable r2)"
    by simp
  with rel show ?thesis by (simp add: sameEntities_def)
qed

lemma describes_empty: "describes {} emptyRegistry"
  by (simp add: describes_def emptyRegistry_def mentioned_def)

lemma update_new: "k \<notin> fst ` set al \<Longrightarrow> AList.update k v al = al @ [(k, v)]"
  by (induction al) auto

lemma tableInv_step:
  assumes inv: "tableInv r" and b: "byCtor r' = (byCtor r)(tgt \<mapsto> meta)"
    and s: "set (byTable r') = insert (tableName meta, tgt) {e \<in> set (byTable r). snd e \<noteq> tgt}"
    and d: "distinct (map fst (byTable r'))"
  shows "tableInv r'"
proof -
  have "set (byTable r') = {e. \<exists>m. byCtor r' (snd e) = Some m \<and> tableName m = fst e}"
  proof (rule set_eqI)
    fix e :: "string \<times> ctor"
    show "e \<in> set (byTable r') \<longleftrightarrow> e \<in> {e. \<exists>m. byCtor r' (snd e) = Some m \<and> tableName m = fst e}"
    proof (cases "snd e = tgt")
      case True
      then have "e = (tableName meta, tgt) \<longleftrightarrow> tableName meta = fst e"
        by (cases e) auto
      with True show ?thesis by (auto simp: s b)
    next
      case False
      with inv show ?thesis by (auto simp: s b tableInv_def)
    qed
  qed
  with d show ?thesis by (simp add: tableInv_def)
qed

lemma tableInv_entry:
  "tableInv r \<Longrightarrow> byCtor r c = Some m \<Longrightarrow> map_of (byTable r) (tableName m) = Some c"
proof -
  assume inv: "tableInv r" and m: "byCtor r c = Some m"
  then have "(tableName m, c) \<in> set (byTable r)" by (simp add: tableInv_def)
  with inv show ?thesis by (simp add: tableInv_def)
qed

lemma tableInv_lookup:
  "tableInv r \<Longrightarrow> map_of (byTable r) n = Some c \<Longrightarrow> \<exists>m. byCtor r c = Some m \<and> tableName m = n"
proof -
  assume inv: "tableInv r" and "map_of (byTable r) n = Some c"
  then have "(n, c) \<in> set (byTable r)" by (simp add: map_of_SomeD)
  with inv show ?thesis by (simp add: tableInv_def)
qed

lemma ensure_create:
  assumes inv: "tableInv r" and en: "ensureEntityMeta tgt name r = Inr (meta, r')"
    and none: "byCtor r tgt = None"
  shows "meta = \<lparr>target = tgt,
                 tableName = (case name of None \<Rightarrow> ctorName tgt | Some n \<Rightarrow> n),
                 columns = []\<rparr> \<and>
         tableName meta \<noteq> [] \<and>
         byCtor r' = (byCtor r)(tgt \<mapsto> meta) \<and> sealed r' = sealed r \<and> tableInv r'"
proof -
  define tname where "tname = (case name of None \<Rightarrow> ctorName tgt | Some n \<Rightarrow> n)"
  from en none have m: "meta = \<lparr>target = tgt, tableName = tname, columns = []\<rparr>"
    and ne: "tname \<noteq> []"
    and nc: "\<not> (case map_of (byTable r) tname of None \<Rightarrow> False | Some existing \<Rightarrow> existing \<noteq> tgt)"
    and r': "r' = r\<lparr>byCtor := (byCtor r)(tgt \<mapsto> meta),
                     byTable := AList.update tname tgt (byTable r)\<rparr>"
    by (auto simp: ensureEntityMeta_def Let_def tname_def split: if_splits)
  have "map_of (byTable r) tname = None"
  proof (cases "map_of (byTable r) tname")
    case (Some c)
    with nc have "c = tgt" by simp
    with tableInv_lookup [OF inv Some] none show ?thesis by simp
  qed simp
  then have nk: "tname \<notin> fst ` set (byTable r)"
    by (simp add: map_of_eq_None_iff)
  have noent: "{e \<in> set (byTable r). snd e \<noteq> tgt} = set (byTable r)"
    using inv none by (auto simp: tableInv_def)
  have s: "set (byTable r') = insert (tableName meta, tgt) {e \<in> set (byTable r). snd e \<noteq> tgt}"
    by (simp add: r' update_new [OF nk] noent m)
  have d: "distinct (map fst (byTable r'))"
    using inv by (simp add: r' tableInv_def distinct_update)
  have b: "byCtor r' = (byCtor r)(tgt \<mapsto> meta)" by (simp add: r')
  from tableInv_step [OF inv b s d] m ne b show ?thesis
    by (simp add: tname_def r')
qed

lemma ensure_existing:
  assumes inv: "tableInv r" and en: "ensureEntityMeta tgt name r = Inr (meta, r')"
    and some: "byCtor r tgt = Some old"
  shows "target meta = target old \<and> columns meta = columns old \<and>
         ((tableName meta = tableName old \<and>
             (name = None \<or> name = Some [] \<or> name = Some (tableName old))) \<or>
          (\<exists>n. name = Some n \<and> n \<noteq> [] \<and> n \<noteq> tableName old \<and>
               tableName old = ctorName tgt \<and> tableName meta = n)) \<and>
         byCtor r' = (byCtor r)(tgt \<mapsto> meta) \<and> sealed r' = sealed r \<and> tableInv r'"
proof (cases "\<exists>n. name = Some n \<and> n \<noteq> [] \<and> tableName old \<noteq> n")
  case False
  with en some have "r' = r" "meta = old"
    by (auto simp: ensureEntityMeta_def Let_def split: if_splits option.splits)
  moreover from some have "(byCtor r)(tgt \<mapsto> old) = byCtor r" by auto
  ultimately show ?thesis using inv False by (cases name) auto
next
  case True
  then obtain n where n: "name = Some n" "n \<noteq> []" "tableName old \<noteq> n" by auto
  define table1 where "table1 = (if map_of (byTable r) (tableName old) = Some tgt
                          then AList.delete (tableName old) (byTable r) else byTable r)"
  from en some n have m: "meta = old\<lparr>tableName := n\<rparr>"
    and dflt: "tableName old = ctorName tgt"
    and nc: "\<not> (case map_of (byTable r) n of None \<Rightarrow> False | Some conflict \<Rightarrow> conflict \<noteq> tgt)"
    and r': "r' = r\<lparr>byCtor := (byCtor r)(tgt \<mapsto> meta), byTable := AList.update n tgt table1\<rparr>"
    by (auto simp: ensureEntityMeta_def Let_def table1_def split: if_splits)
  from tableInv_entry [OF inv some] have t1: "table1 = AList.delete (tableName old) (byTable r)"
    by (simp add: table1_def)
  have "map_of (byTable r) n = None"
  proof (cases "map_of (byTable r) n")
    case (Some c)
    with nc have "c = tgt" by simp
    with tableInv_lookup [OF inv Some] some n show ?thesis by simp
  qed simp
  then have "n \<notin> fst ` set (byTable r)" by (simp add: map_of_eq_None_iff)
  then have nk: "n \<notin> fst ` set table1"
    by (auto simp: t1 set_delete)
  have "set table1 = {e \<in> set (byTable r). snd e \<noteq> tgt}"
  proof (rule set_eqI)
    fix e :: "string \<times> ctor"
    show "e \<in> set table1 \<longleftrightarrow> e \<in> {e \<in> set (byTable r). snd e \<noteq> tgt}"
    proof (cases "e \<in> set (byTable r)")
      case False
      then show ?thesis by (simp add: t1 set_delete)
    next
      case True
      with inv obtain m' where m': "byCtor r (snd e) = Some m'" "tableName m' = fst e"
        by (auto simp: tableInv_def)
      have "fst e = tableName old \<longleftrightarrow> snd e = tgt"
      proof
        assume fe: "fst e = tableName old"
        from True have "(fst e, snd e) \<in> set (byTable r)" by simp
        with inv have "map_of (byTable r) (fst e) = Some (snd e)"
          by (simp add: tableInv_def)
        with tableInv_entry [OF inv some] fe show "snd e = tgt" by simp
      next
        assume "snd e = tgt"
        with m' some show "fst e = tableName old" by simp
      qed
      with True show ?thesis by (simp add: t1 set_delete)
    qed
  qed
  then have s: "set (byTable r') = insert (tableName meta, tgt) {e \<in> set (byTable r). snd e \<noteq> tgt}"
    by (simp add: r' update_new [OF nk] m)
  from inv have "distinct (map fst table1)"
    by (simp add: t1 tableInv_def distinct_delete)
  then have d: "distinct (map fst (byTable r'))"
    by (simp add: r' distinct_update)
  have b: "byCtor r' = (byCtor r)(tgt \<mapsto> meta)" by (simp add: r')
  from tableInv_step [OF inv b s d] m n dflt b show ?thesis
    by (simp add: r')
qed

lemma describes_tableInv: "describes S r \<Longrightarrow> tableInv r"
  by (simp add: describes_def tableInv_def)

lemma not_mentioned_empty:
  "\<not> mentioned S c \<Longrightarrow> colsFor S c = {} \<and> namesFor S c = {}"
  by (auto simp: mentioned_def colsFor_def namesFor_def)

lemma colsFor_insert_entity: "colsFor (insert (AddEntity c name) S) c' = colsFor S c'"
  by (simp add: colsFor_def)

lemma namesFor_insert_column: "namesFor (insert (AddColumn t k opts) S) c = namesFor S c"
  by (simp add: namesFor_def)

lemma nameOk_insert_column: "nameOk (insert (AddColumn t k opts) S) c n = nameOk S c n"
  by (simp add: nameOk_def namesFor_insert_column)

lemma namesFor_insert_other:
  "c' \<noteq> c \<Longrightarrow> namesFor (insert (AddEntity c name) S) c' = namesFor S c'"
  by (simp add: namesFor_def)

lemma nameOk_insert_other:
  "c' \<noteq> c \<Longrightarrow> nameOk (insert (AddEntity c name) S) c' n = nameOk S c' n"
  by (simp add: nameOk_def namesFor_insert_other)

lemma namesFor_insert_same:
  "namesFor (insert (AddEntity c name) S) c =
     (case name of None \<Rightarrow> namesFor S c
      | Some n \<Rightarrow> if n = [] then namesFor S c else insert n (namesFor S c))"
  by (auto simp: namesFor_def split: option.splits)

lemma nameOk_create:
  assumes "namesFor S c = {}" "n = (case name of None \<Rightarrow> ctorName c | Some x \<Rightarrow> x)" "n \<noteq> []"
  shows "nameOk (insert (AddEntity c name) S) c n"
  using assms by (cases name) (auto simp: nameOk_def namesFor_insert_same)

lemma nameOk_keep:
  assumes "nameOk S c n" "name = None \<or> name = Some [] \<or> name = Some n"
  shows "nameOk (insert (AddEntity c name) S) c n"
  using assms by (cases name) (auto simp: nameOk_def namesFor_insert_same)

lemma nameOk_rename:
  assumes "nameOk S c (ctorName c)" "n \<noteq> []" "n \<noteq> ctorName c"
  shows "nameOk (insert (AddEntity c (Some n)) S) c n"
  using assms by (auto simp: nameOk_def namesFor_insert_same)

lemma mentioned_insert_entity:
  "mentioned (insert (AddEntity c name) S) c' \<longleftrightarrow> c' = c \<or> mentioned S c'"
  by (auto simp: mentioned_def)

lemma mentioned_insert_column:
  "mentioned (insert (AddColumn (Some c) k opts) S) c' \<longleftrightarrow> c' = c \<or> mentioned S c'"
  by (auto simp: mentioned_def)

lemma colsFor_insert_column:
  "colsFor (insert (AddColumn (Some c) k opts) S) c' =
     (if c' = c then insert \<lparr>propertyKey = k, options = spread noOptions opts\<rparr> (colsFor S c')
      else colsFor S c')"
  by (auto simp: colsFor_def)

lemma addEntity_describes:
  assumes d: "describes S r" and a: "addEntity tgt name r = (None, r')"
  shows "describes (insert (AddEntity tgt name) S) r'"
proof -
  let ?S = "insert (AddEntity tgt name) S"
  from a obtain meta where en: "ensureEntityMeta tgt name r = Inr (meta, r')"
    by (auto simp: addEntity_def split: if_splits sum.splits)
  note inv = describes_tableInv [OF d]
  have eff: "byCtor r' = (byCtor r)(tgt \<mapsto> meta) \<and> tableInv r' \<and> target meta = tgt \<and>
             set (columns meta) = colsFor ?S tgt \<and> nameOk ?S tgt (tableName meta)"
  proof (cases "byCtor r tgt")
    case None
    with describes_mentioned [OF d, of tgt] have nm: "\<not> mentioned S tgt" by simp
    from ensure_create [OF inv en None]
    have m: "meta = \<lparr>target = tgt,
                 tableName = (case name of None \<Rightarrow> ctorName tgt | Some n \<Rightarrow> n),
                 columns = []\<rparr>"
      and ne: "tableName meta \<noteq> []"
      and b: "byCtor r' = (byCtor r)(tgt \<mapsto> meta)" "tableInv r'"
      by blast+
    from m have tn: "tableName meta = (case name of None \<Rightarrow> ctorName tgt | Some x \<Rightarrow> x)"
      by simp
    from not_mentioned_empty [OF nm] have e: "colsFor S tgt = {}" "namesFor S tgt = {}"
      by simp_all
    from nameOk_create [OF e(2) tn ne] have "nameOk ?S tgt (tableName meta)" .
    moreover from m have "target meta = tgt" "set (columns meta) = {}" by simp_all
    ultimately show ?thesis using b e by (simp add: colsFor_insert_entity)
  next
    case (Some old)
    from describes_meta [OF d Some]
    have o: "target old = tgt" "set (columns old) = colsFor S tgt" "nameOk S tgt (tableName old)"
      by simp_all
    from ensure_existing [OF inv en Some]
    have e: "target meta = target old" "columns meta = columns old"
      "(tableName meta = tableName old \<and>
             (name = None \<or> name = Some [] \<or> name = Some (tableName old))) \<or>
          (\<exists>n. name = Some n \<and> n \<noteq> [] \<and> n \<noteq> tableName old \<and>
               tableName old = ctorName tgt \<and> tableName meta = n)"
      "byCtor r' = (byCtor r)(tgt \<mapsto> meta)" "tableInv r'"
      by simp_all
    from e(3) have "nameOk ?S tgt (tableName meta)"
    proof
      assume "tableName meta = tableName old \<and>
             (name = None \<or> name = Some [] \<or> name = Some (tableName old))"
      with nameOk_keep [OF o(3), of name] show ?thesis by simp
    next
      assume "\<exists>n. name = Some n \<and> n \<noteq> [] \<and> n \<noteq> tableName old \<and>
               tableName old = ctorName tgt \<and> tableName meta = n"
      then obtain n where n: "name = Some n" "n \<noteq> []" "n \<noteq> tableName old"
        "tableName old = ctorName tgt" "tableName meta = n" by auto
      with nameOk_rename [of S tgt n] o(3) show ?thesis by simp
    qed
    with e o show ?thesis by (simp add: colsFor_insert_entity)
  qed
  have 1: "\<forall>c. byCtor r' c \<noteq> None \<longleftrightarrow> mentioned ?S c"
    using eff describes_mentioned [OF d] by (auto simp: mentioned_insert_entity)
  have 2: "\<forall>c m. byCtor r' c = Some m \<longrightarrow>
         target m = c \<and> set (columns m) = colsFor ?S c \<and> nameOk ?S c (tableName m)"
  proof (intro allI impI)
    fix c m assume m: "byCtor r' c = Some m"
    show "target m = c \<and> set (columns m) = colsFor ?S c \<and> nameOk ?S c (tableName m)"
    proof (cases "c = tgt")
      case True
      with m eff show ?thesis by simp
    next
      case False
      with m eff have "byCtor r c = Some m" by simp
      from describes_meta [OF d this] False show ?thesis
        by (simp add: colsFor_insert_entity nameOk_insert_other)
    qed
  qed
  from eff have "tableInv r'" by simp
  with 1 2 show ?thesis by (simp add: describes_def tableInv_def)
qed

lemma spread_idem: "spread (spread noOptions opts) opts = spread noOptions opts"
  by (simp add: spread_def noOptions_def)

lemma tableInv_columns:
  assumes "tableInv r" "byCtor r c = Some m"
  shows "tableInv (r\<lparr>byCtor := (byCtor r)(c \<mapsto> m\<lparr>columns := cols\<rparr>)\<rparr>)"
proof -
  have "\<And>e :: string \<times> ctor.
      (\<exists>m'. ((byCtor r)(c \<mapsto> m\<lparr>columns := cols\<rparr>)) (snd e) = Some m' \<and> tableName m' = fst e) \<longleftrightarrow>
      (\<exists>m'. byCtor r (snd e) = Some m' \<and> tableName m' = fst e)"
    using assms(2) by auto
  with assms(1) show ?thesis by (simp add: tableInv_def)
qed

lemma addColumn_describes:
  assumes d: "describes S r" and a: "addColumn (Some ctor) key opts r = (None, r')"
    and co: "consistentOptions (insert (AddColumn (Some ctor) key opts) S)"
  shows "describes (insert (AddColumn (Some ctor) key opts) S) r'"
proof -
  let ?op = "AddColumn (Some ctor) key opts"
  let ?S = "insert ?op S"
  let ?col = "\<lparr>propertyKey = key, options = spread noOptions opts\<rparr>"
  from a have ns: "\<not> sealed r" by (auto simp: addColumn_def split: if_splits)
  with a obtain meta r1 where en: "ensureEntityMeta ctor None r = Inr (meta, r1)"
    by (cases "ensureEntityMeta ctor None r") (auto simp: addColumn_def)
  note inv = describes_tableInv [OF d]
  have eff: "byCtor r1 = (byCtor r)(ctor \<mapsto> meta) \<and> tableInv r1 \<and> target meta = ctor \<and>
             set (columns meta) = colsFor S ctor \<and> nameOk S ctor (tableName meta)"
  proof (cases "byCtor r ctor")
    case None
    with describes_mentioned [OF d, of ctor] have nm: "\<not> mentioned S ctor" by simp
    from ensure_create [OF inv en None]
    have m: "meta = \<lparr>target = ctor, tableName = ctorName ctor, columns = []\<rparr>"
      and b: "byCtor r1 = (byCtor r)(ctor \<mapsto> meta)" "tableInv r1"
      by simp_all
    from not_mentioned_empty [OF nm] have e: "colsFor S ctor = {}" "namesFor S ctor = {}"
      by simp_all
    from m e have "nameOk S ctor (tableName meta)" by (simp add: nameOk_def)
    moreover from m have "target meta = ctor" "set (columns meta) = {}" by simp_all
    ultimately show ?thesis using b e by simp
  next
    case (Some old)
    from describes_meta [OF d Some] ensure_existing [OF inv en Some]
    show ?thesis by simp
  qed
  define newcols where "newcols =
    (case findIndex (\<lambda>c. propertyKey c = key) (columns meta) of
       Some idx \<Rightarrow> (columns meta)[idx := \<lparr>propertyKey = key,
                         options = spread (options (columns meta ! idx)) opts\<rparr>]
     | None \<Rightarrow> columns meta @ [?col])"
  from a ns en have r': "r' = r1\<lparr>byCtor := (byCtor r1)(ctor \<mapsto> meta\<lparr>columns := newcols\<rparr>)\<rparr>"
    by (auto simp: addColumn_def Let_def newcols_def split: if_splits option.splits)
  have sc: "set newcols = insert ?col (set (columns meta))"
  proof (cases "findIndex (\<lambda>c. propertyKey c = key) (columns meta)")
    case None
    then show ?thesis by (simp add: newcols_def)
  next
    case (Some idx)
    from findIndex_Some [OF this]
    have i: "idx < length (columns meta)" "propertyKey (columns meta ! idx) = key" by simp_all
    then have "columns meta ! idx \<in> colsFor S ctor" using eff by (metis nth_mem)
    then obtain k o' where k: "AddColumn (Some ctor) k o' \<in> S"
      "columns meta ! idx = \<lparr>propertyKey = k, options = spread noOptions o'\<rparr>"
      by (auto simp: colsFor_def)
    with i have "k = key" by simp
    with k co have "o' = opts" unfolding consistentOptions_def by blast
    with k \<open>k = key\<close> have c: "columns meta ! idx = ?col" by simp
    have "(columns meta)[idx := columns meta ! idx] = columns meta" by simp
    with c have "(columns meta)[idx := ?col] = columns meta" by simp
    with c have "newcols = columns meta"
      by (simp add: newcols_def Some spread_idem)
    moreover from c i have "?col \<in> set (columns meta)" by (metis nth_mem)
    ultimately show ?thesis by auto
  qed
  from eff have m1: "byCtor r1 ctor = Some meta" by simp
  from tableInv_columns [OF _ m1, of newcols] eff have ti: "tableInv r'"
    by (simp add: r')
  have 1: "\<forall>c. byCtor r' c \<noteq> None \<longleftrightarrow> mentioned ?S c"
    using eff describes_mentioned [OF d] by (auto simp: r' mentioned_insert_column)
  have 2: "\<forall>c m. byCtor r' c = Some m \<longrightarrow>
         target m = c \<and> set (columns m) = colsFor ?S c \<and> nameOk ?S c (tableName m)"
  proof (intro allI impI)
    fix c m assume m: "byCtor r' c = Some m"
    show "target m = c \<and> set (columns m) = colsFor ?S c \<and> nameOk ?S c (tableName m)"
    proof (cases "c = ctor")
      case True
      with m have "m = meta\<lparr>columns := newcols\<rparr>" by (simp add: r')
      with True eff sc show ?thesis
        by (simp add: colsFor_insert_column nameOk_insert_column)
    next
      case False
      with m eff have "byCtor r c = Some m" by (simp add: r')
      from describes_meta [OF d this] False show ?thesis
        by (simp add: colsFor_insert_column nameOk_insert_column)
    qed
  qed
  from ti 1 2 show ?thesis by (simp add: describes_def tableInv_def)
qed

lemma runChecked_describes:
  "describes S r \<Longrightarrow> consistentOptions (S \<union> set ops) \<Longrightarrow> \<forall>op \<in> set ops. isRegistration op \<Longrightarrow>
     runChecked ops r = Inr r' \<Longrightarrow> describes (S \<union> set ops) r'"
proof (induction ops arbitrary: S r)
  case Nil
  then show ?case by simp
next
  case (Cons op ops)
  from Cons.prems(4) obtain r1 where s: "stepOp op r = (None, r1)"
    and rest: "runChecked ops r1 = Inr r'"
    by (cases "stepOp op r") (auto split: option.splits)
  from Cons.prems(2) have co: "consistentOptions (insert op S)"
    by (auto simp: consistentOptions_def)
  have "describes (insert op S) r1"
  proof (cases op)
    case (AddEntity tgt name)
    with s addEntity_describes [OF Cons.prems(1), of tgt name r1] show ?thesis by simp
  next
    case (AddColumn t key opts)
    show ?thesis
    proof (cases t)
      case None
      with s AddColumn show ?thesis by (auto simp: addColumn_def split: if_splits)
    next
      case (Some ctor)
      with s AddColumn co addColumn_describes [OF Cons.prems(1), of ctor key opts r1]
      show ?thesis by simp
    qed
  next
    case SealRegistry
    with Cons.prems(3) show ?thesis by simp
  next
    case ResetRegistry
    with Cons.prems(3) show ?thesis by simp
  qed
  from Cons.IH [OF this _ _ rest] Cons.prems(2,3) show ?case by simp
qed

subsection \<open>The schema does not depend on the order of registration\<close>

lemma describes_wf: "describes S r \<Longrightarrow> registryWf r"
  by (auto simp: describes_def registryWf_def)

lemma runChecked_ok:
  assumes "runChecked ops emptyRegistry = Inr r"
  shows "registryOk r"
proof -
  from runChecked_fold [OF assms] have "r = runOps ops" by (simp add: runOps_def)
  then show ?thesis by (simp add: runOps_ok)
qed

text \<open>
  Claim C5, as the code has it.  Take a list of entity and column registrations in which
  no property of an entity is registered with two different options, and any permutation
  of it, and let the registry accept both runs.  Provided \<^verbatim>\<open>localeCompare\<close> orders the
  table names strictly and totally, \<^verbatim>\<open>buildSchema\<close> yields the same schema after both
  runs, with the same string for each table; and \<^verbatim>\<open>computeSignature\<close> yields the same
  signature for two schema objects that hold the same entries in different orders.
\<close>

theorem schema_independent_of_registration_order:
  assumes "mset ops2 = mset ops1"
    and "\<forall>op \<in> set ops1. isRegistration op"
    and "consistentOptions (set ops1)"
    and "runChecked ops1 emptyRegistry = Inr r1"
    and "runChecked ops2 emptyRegistry = Inr r2"
    and "strictOrderOn lc (fst ` set (byTable r1))"
  shows "(buildSchema lc r1 = Inr schema \<longrightarrow> buildSchema lc r2 = Inr schema)
     \<and> (set schema' = set schema \<and> distinct (map fst schema) \<and> distinct (map fst schema') \<and>
        strictOrderOn lc (fst ` set schema) \<longrightarrow>
          computeSignature lc schema' = computeSignature lc schema)"
proof -
  from assms(1) have s: "set ops2 = set ops1" by (rule mset_eq_setD)
  from runChecked_describes [OF describes_empty _ assms(2) assms(4)] assms(3)
  have d1: "describes (set ops1) r1" by simp
  from runChecked_describes [OF describes_empty _ _ assms(5)] assms(2,3) s
  have d2: "describes (set ops1) r2" by simp
  have se: "sameEntities r1 r2" by (rule describes_same [OF d1 d2])
  from buildSchema_same [OF se runChecked_ok [OF assms(4)] runChecked_ok [OF assms(5)]
      describes_wf [OF d1] describes_wf [OF d2] assms(6), of schema]
    computeSignature_same [of schema schema' lc]
  show ?thesis by auto
qed

theorem schema_independent_of_registration_order_witness:
  "buildSchema (\<lambda>a b. int (length a) - int (length b))
     (runOps [AddEntity (Ctor 7 ''User'' None) (Some ''users''),
              AddColumn (Some (Ctor 8 ''Post'' None)) ''title'' \<lparr>primary = Absent, autoIncrement = Absent\<rparr>,
              AddColumn (Some (Ctor 8 ''Post'' None)) ''id'' \<lparr>primary = Flag True, autoIncrement = Absent\<rparr>,
              AddColumn (Some (Ctor 7 ''User'' None)) ''name'' \<lparr>primary = Absent, autoIncrement = Absent\<rparr>,
              AddColumn (Some (Ctor 7 ''User'' None)) ''age'' \<lparr>primary = Absent, autoIncrement = Absent\<rparr>,
              AddColumn (Some (Ctor 7 ''User'' None)) ''id'' \<lparr>primary = Flag True, autoIncrement = Flag True\<rparr>]) =
     Inr [(''Post'', ''id, title''), (''users'', ''++id, age, name'')]
   \<and> computeSignature (\<lambda>a b. int (length a) - int (length b))
        [(''users'', ''++id, age, name''), (''Post'', ''id, title'')] =
     computeSignature (\<lambda>a b. int (length a) - int (length b))
        [(''Post'', ''id, title''), (''users'', ''++id, age, name'')]"
proof -
  let ?lc = "\<lambda>a b. int (length a) - int (length (b :: string))"
  let ?U = "Ctor 7 ''User'' None" and ?P = "Ctor 8 ''Post'' None"
  let ?no = "\<lparr>primary = Absent, autoIncrement = Absent\<rparr>"
  let ?pk = "\<lparr>primary = Flag True, autoIncrement = Absent\<rparr>"
  let ?ai = "\<lparr>primary = Flag True, autoIncrement = Flag True\<rparr>"
  let ?ops1 = "[AddColumn (Some ?U) ''id'' ?ai, AddColumn (Some ?U) ''name'' ?no,
                AddColumn (Some ?U) ''age'' ?no, AddEntity ?U (Some ''users''),
                AddColumn (Some ?P) ''id'' ?pk, AddColumn (Some ?P) ''title'' ?no]"
  let ?ops2 = "[AddEntity ?U (Some ''users''),
                AddColumn (Some ?P) ''title'' ?no, AddColumn (Some ?P) ''id'' ?pk,
                AddColumn (Some ?U) ''name'' ?no, AddColumn (Some ?U) ''age'' ?no,
                AddColumn (Some ?U) ''id'' ?ai]"
  let ?schema = "[(''Post'', ''id, title''), (''users'', ''++id, age, name'')]"
  let ?schema' = "[(''users'', ''++id, age, name''), (''Post'', ''id, title'')]"
  let ?r1 = "\<lparr>byCtor = (\<lambda>c. None)
         (?U \<mapsto> \<lparr>target = ?U, tableName = ''users'',
                  columns = [\<lparr>propertyKey = ''id'', options = ?ai\<rparr>,
                             \<lparr>propertyKey = ''name'', options = ?no\<rparr>,
                             \<lparr>propertyKey = ''age'', options = ?no\<rparr>]\<rparr>,
          ?P \<mapsto> \<lparr>target = ?P, tableName = ''Post'',
                  columns = [\<lparr>propertyKey = ''id'', options = ?pk\<rparr>,
                             \<lparr>propertyKey = ''title'', options = ?no\<rparr>]\<rparr>),
       byTable = [(''users'', ?U), (''Post'', ?P)], sealed = False\<rparr>"
  let ?r2 = "\<lparr>byCtor = (\<lambda>c. None)
         (?P \<mapsto> \<lparr>target = ?P, tableName = ''Post'',
                  columns = [\<lparr>propertyKey = ''title'', options = ?no\<rparr>,
                             \<lparr>propertyKey = ''id'', options = ?pk\<rparr>]\<rparr>,
          ?U \<mapsto> \<lparr>target = ?U, tableName = ''users'',
                  columns = [\<lparr>propertyKey = ''name'', options = ?no\<rparr>,
                             \<lparr>propertyKey = ''age'', options = ?no\<rparr>,
                             \<lparr>propertyKey = ''id'', options = ?ai\<rparr>]\<rparr>),
       byTable = [(''users'', ?U), (''Post'', ?P)], sealed = False\<rparr>"
  have r1: "runChecked ?ops1 emptyRegistry = Inr ?r1"
    by (simp add: addColumn_def addEntity_def ensureEntityMeta_def emptyRegistry_def flagSet_def
        spread_def noOptions_def Let_def fun_upd_twist)
  have r2: "runChecked ?ops2 emptyRegistry = Inr ?r2"
    by (simp add: addColumn_def addEntity_def ensureEntityMeta_def emptyRegistry_def flagSet_def
        spread_def noOptions_def Let_def fun_upd_twist)
  have p: "mset ?ops2 = mset ?ops1" by (simp add: add_mset_commute)
  have reg: "\<forall>op \<in> set ?ops1. isRegistration op" by simp
  have co: "consistentOptions (set ?ops1)" by (auto simp: consistentOptions_def)
  have so: "strictOrderOn ?lc (fst ` set (byTable ?r1))"
    by (simp add: strictOrderOn_def)
  have b1: "buildSchema ?lc ?r1 = Inr ?schema"
    by (simp add: flagSet_def Let_def buildSchema_def assignProp_def getAllEntities_def
      List.map_filter_simps sortBy_def buildTableSchema_def resolveEntity_def mergeColumns_def
      setColumns_def setElements_def)
  have so2: "set ?schema' = set ?schema \<and> distinct (map fst ?schema) \<and>
      distinct (map fst ?schema') \<and> strictOrderOn ?lc (fst ` set ?schema)"
    by (auto simp: strictOrderOn_def)
  from runChecked_fold [OF r2] have "runOps ?ops2 = ?r2" by (simp add: runOps_def)
  with schema_independent_of_registration_order [OF p reg co r1 r2 so, of ?schema ?schema'] b1 so2
  show ?thesis by simp
qed

section \<open>Properties of the version manager\<close>

lemma computeSignature_not_empty: "computeSignature lc obj \<noteq> []"
  by (simp add: computeSignature_def jsonEntries_def)


text \<open>
  Claim C1, as the code has it.  When \<^verbatim>\<open>window\<close> is undefined, \<^verbatim>\<open>getVersion\<close> stores
  nothing, raises no error and returns version 2 for every database name and schema: the
  default record has version 1 and the empty signature, a computed signature is never
  empty, and \<^verbatim>\<open>storeVersion\<close> returns the incremented version it was given.
\<close>

theorem getVersion_without_window:
  "getVersion parse lc None dbName schema = (2, None)"
  using computeSignature_not_empty [of lc schema]
  by (simp add: getVersion_def loadStoredVersion_def storeVersion_def defaultRecord_def Let_def)

text \<open>Without \<^verbatim>\<open>window\<close> the result for a one-table schema is not version 1.\<close>

theorem getVersion_without_window_counterexample:
  "getVersion (\<lambda>raw. SyntaxError) (\<lambda>a b. 0) None ''app'' [(''users'', ''++id, name'')] \<noteq> (1, None)"
  using computeSignature_not_empty [of "\<lambda>a b. 0" "[(''users'', ''++id, name'')]"]
  by (simp add: getVersion_def loadStoredVersion_def storeVersion_def defaultRecord_def Let_def)



end
